theory Spec2Isabelle
  imports Complex_Main "HOL-Library.Word"
begin

unbundle bit_operations_syntax

section \<open>Errors raised by the program\<close>

text \<open>
  Every \<open>throw new Error(...)\<close> of the sources, and the range errors of Node's
  \<open>Buffer\<close> accessors, as values.  The constructor names the throwing site.
\<close>

datatype js_error =
    UnlockNotLocked \<comment> \<open>sync-utils.js, \<open>Mutex.unlock\<close>\<close>
  | HeaderTooShort \<comment> \<open>worker.js, \<open>receiveImageData\<close>: fewer than 24 bytes\<close>
  | ImageDataIncomplete int int \<comment> \<open>worker.js: expected size, received size\<close>
  | OutOfRange \<comment> \<open>Node's \<open>ERR_OUT_OF_RANGE\<close> of \<open>writeInt32LE\<close>/\<open>readInt32LE\<close>\<close>
  | SliceParamT1 \<comment> \<open>filters.js, \<open>validateSliceParams\<close>, first check\<close>
  | SliceParamT2 \<comment> \<open>second check\<close>
  | SliceParamOrder \<comment> \<open>third check\<close>

section \<open>sync-utils.js: Mutex and Semaphore\<close>

text \<open>
  A waiter is the \<open>resolve\<close> callback a suspended caller left in the queue; the
  model names it by a number.  Calling the callback resumes that caller.
\<close>

type_synonym waiter = nat

record mutex =
  m_locked :: bool
  m_waitQueue :: "waiter list"

definition Mutex_new :: mutex where
  "Mutex_new = \<lparr>m_locked = False, m_waitQueue = []\<rparr>"

text \<open>
  \<open>lock()\<close>: the result says whether the promise was resolved at once (\<open>True\<close>)
  or the caller was queued.
\<close>

definition lock :: "mutex \<Rightarrow> waiter \<Rightarrow> bool \<times> mutex" where
  "lock m resolve =
     (if \<not> m_locked m then (True, m\<lparr>m_locked := True\<rparr>)
      else (False, m\<lparr>m_waitQueue := m_waitQueue m @ [resolve]\<rparr>))"

text \<open>
  \<open>unlock()\<close>: throws on a mutex that is not locked; otherwise hands the lock to
  the head of the queue (the resumed waiter is returned) or frees it.  The second
  component is the mutex after the call, also when the call threw.
\<close>

definition unlock :: "mutex \<Rightarrow> (js_error + waiter option) \<times> mutex" where
  "unlock m =
     (if \<not> m_locked m then (Inl UnlockNotLocked, m)
      else if length (m_waitQueue m) > 0
        then (Inr (Some (hd (m_waitQueue m))), m\<lparr>m_waitQueue := tl (m_waitQueue m)\<rparr>)
        else (Inr None, m\<lparr>m_locked := False\<rparr>))"

definition isLocked :: "mutex \<Rightarrow> bool" where
  "isLocked m = m_locked m"

record semaphore =
  s_count :: int
  s_waitQueue :: "waiter list"

definition Semaphore_new :: "int \<Rightarrow> semaphore" where
  "Semaphore_new initialCount = \<lparr>s_count = initialCount, s_waitQueue = []\<rparr>"

text \<open>\<open>wait()\<close>: \<open>True\<close> when the promise is resolved at once.\<close>

definition sem_wait :: "semaphore \<Rightarrow> waiter \<Rightarrow> bool \<times> semaphore" where
  "sem_wait s resolve =
     (if s_count s > 0 then (True, s\<lparr>s_count := s_count s - 1\<rparr>)
      else (False, s\<lparr>s_waitQueue := s_waitQueue s @ [resolve]\<rparr>))"

text \<open>\<open>signal()\<close>: the waiter it resumed, if any, and the semaphore after it.\<close>

definition signal :: "semaphore \<Rightarrow> waiter option \<times> semaphore" where
  "signal s =
     (if length (s_waitQueue s) > 0
        then (Some (hd (s_waitQueue s)), s\<lparr>s_waitQueue := tl (s_waitQueue s)\<rparr>)
        else (None, s\<lparr>s_count := s_count s + 1\<rparr>))"

section \<open>sync-utils.js: CompletionCoordinator\<close>

record coordinator =
  cc_mutex :: mutex
  semDone :: semaphore
  remainingTasks :: int
  completed :: bool

definition CompletionCoordinator_new :: "int \<Rightarrow> coordinator" where
  "CompletionCoordinator_new totalTasks =
     \<lparr>cc_mutex = Mutex_new, semDone = Semaphore_new 0,
      remainingTasks = totalTasks, completed = False\<rparr>"

text \<open>
  What a call of an \<open>async\<close> method does when it is run to its end before the next
  call starts: it returns, it throws, or it is suspended on a lock that is held.
\<close>

datatype 'a run = Returned 'a | Threw js_error | Suspended

text \<open>
  \<open>withLock(fn)\<close> on the coordinator's mutex: \<open>lock()\<close>, the body \<open>fn\<close> (a
  closure over the coordinator, here a function of its state), then \<open>unlock()\<close> in
  the \<open>finally\<close> block.  The body is synchronous, so nothing runs between the lock and
  the unlock.
\<close>

definition withLock :: "(coordinator \<Rightarrow> 'a \<times> coordinator) \<Rightarrow> coordinator \<Rightarrow> ('a \<times> coordinator) run" where
  "withLock fn c =
     (case lock (cc_mutex c) 0 of
        (False, m1) \<Rightarrow> Suspended
      | (True, m1) \<Rightarrow>
          (case fn (c\<lparr>cc_mutex := m1\<rparr>) of
             (r, c2) \<Rightarrow>
               (case unlock (cc_mutex c2) of
                  (Inl e, m3) \<Rightarrow> Threw e
                | (Inr resumed, m3) \<Rightarrow> Returned (r, c2\<lparr>cc_mutex := m3\<rparr>))))"

text \<open>The body of \<open>taskCompleted()\<close>, lines 221 to 225.\<close>

definition taskCompleted_body :: "coordinator \<Rightarrow> unit \<times> coordinator" where
  "taskCompleted_body c =
     (let c1 = c\<lparr>remainingTasks := remainingTasks c - 1\<rparr> in
      if remainingTasks c1 \<le> 0 \<and> \<not> completed c1
      then ((), c1\<lparr>completed := True, semDone := snd (signal (semDone c1))\<rparr>)
      else ((), c1))"

definition taskCompleted :: "coordinator \<Rightarrow> coordinator run" where
  "taskCompleted c =
     (case withLock taskCompleted_body c of
        Returned (u, c') \<Rightarrow> Returned c' | Threw e \<Rightarrow> Threw e | Suspended \<Rightarrow> Suspended)"

definition setTotalTasks :: "int \<Rightarrow> coordinator \<Rightarrow> coordinator run" where
  "setTotalTasks n c =
     (case withLock (\<lambda>c. ((), c\<lparr>remainingTasks := n, completed := False\<rparr>)) c of
        Returned (u, c') \<Rightarrow> Returned c' | Threw e \<Rightarrow> Threw e | Suspended \<Rightarrow> Suspended)"

text \<open>\<open>waitForCompletion()\<close> is \<open>semDone.wait()\<close>: \<open>True\<close> when it returns at once.\<close>

definition waitForCompletion :: "coordinator \<Rightarrow> waiter \<Rightarrow> bool \<times> coordinator" where
  "waitForCompletion c resolve =
     (case sem_wait (semDone c) resolve of (r, s) \<Rightarrow> (r, c\<lparr>semDone := s\<rparr>))"

definition getRemainingTasks :: "coordinator \<Rightarrow> (int \<times> coordinator) run" where
  "getRemainingTasks c = withLock (\<lambda>c. (remainingTasks c, c)) c"

definition isCompleted :: "coordinator \<Rightarrow> (bool \<times> coordinator) run" where
  "isCompleted c = withLock (\<lambda>c. (completed c, c)) c"

text \<open>\<open>k\<close> calls of \<open>taskCompleted()\<close>, one after the other.\<close>

fun taskCompleted_calls :: "nat \<Rightarrow> coordinator \<Rightarrow> coordinator run" where
  "taskCompleted_calls 0 c = Returned c"
| "taskCompleted_calls (Suc k) c =
     (case taskCompleted_calls k c of
        Returned c' \<Rightarrow> taskCompleted c' | Threw e \<Rightarrow> Threw e | Suspended \<Rightarrow> Suspended)"

text \<open>
  The operations of a coordinator other than \<open>taskCompleted()\<close>, and a run of a list
  of them.
\<close>

datatype coord_op =
  WaitForCompletion waiter | SetTotalTasks int | GetRemainingTasks | IsCompleted

fun coord_step :: "coord_op \<Rightarrow> coordinator \<Rightarrow> coordinator run" where
  "coord_step (WaitForCompletion resolve) c = Returned (snd (waitForCompletion c resolve))"
| "coord_step (SetTotalTasks n) c = setTotalTasks n c"
| "coord_step GetRemainingTasks c =
     (case getRemainingTasks c of
        Returned (n, c') \<Rightarrow> Returned c' | Threw e \<Rightarrow> Threw e | Suspended \<Rightarrow> Suspended)"
| "coord_step IsCompleted c =
     (case isCompleted c of
        Returned (b, c') \<Rightarrow> Returned c' | Threw e \<Rightarrow> Threw e | Suspended \<Rightarrow> Suspended)"

fun coord_steps :: "coord_op list \<Rightarrow> coordinator \<Rightarrow> coordinator run" where
  "coord_steps [] c = Returned c"
| "coord_steps (x # xs) c =
     (case coord_step x c of
        Returned c' \<Rightarrow> coord_steps xs c' | Threw e \<Rightarrow> Threw e | Suspended \<Rightarrow> Suspended)"

text \<open>
  The state in which a caller of \<open>waitForCompletion()\<close> is suspended first in the
  queue of \<open>semDone\<close>, with no signal stored and the mutex free.
\<close>

definition waiting_first :: "waiter \<Rightarrow> coordinator \<Rightarrow> bool" where
  "waiting_first resolve c =
     (cc_mutex c = Mutex_new \<and> s_count (semDone c) = 0 \<and>
      s_waitQueue (semDone c) \<noteq> [] \<and> hd (s_waitQueue (semDone c)) = resolve)"

section \<open>worker.js: the partition into tasks\<close>

text \<open>\<open>class Task\<close> of pgm-utils.js: a half-open range of rows.\<close>

record task =
  row_start :: int
  row_end :: int

text \<open>
  \<open>Math.ceil(height / nthreads)\<close> on integers.  For \<open>nthreads = 0\<close> JavaScript
  gives an infinity or NaN; the loop of \<open>createTasks\<close> then has no iteration and the
  value is not used.
\<close>

definition ceil_div :: "int \<Rightarrow> int \<Rightarrow> int" where
  "ceil_div a b = - ((- a) div b)"

text \<open>The \<open>for\<close> loop of \<open>createTasks\<close>, lines 127 to 134.\<close>

function createTasks_loop :: "int \<Rightarrow> int \<Rightarrow> int \<Rightarrow> int \<Rightarrow> task list \<Rightarrow> task list" where
  "createTasks_loop height nthreads linesPerThread i tasks =
     (if i < nthreads
      then (let rowStart = i * linesPerThread;
                rowEnd = min ((i + 1) * linesPerThread) height
            in createTasks_loop height nthreads linesPerThread (i + 1)
                 (if rowStart < height
                  then tasks @ [\<lparr>row_start = rowStart, row_end = rowEnd\<rparr>]
                  else tasks))
      else tasks)"
  by pat_completeness auto
termination
  by (relation "measure (\<lambda>(height, nthreads, linesPerThread, i, tasks). nat (nthreads - i))")
    auto

declare createTasks_loop.simps [simp del]

definition createTasks :: "int \<Rightarrow> int \<Rightarrow> task list" where
  "createTasks height nthreads =
     createTasks_loop height nthreads (ceil_div height nthreads) 0 []"

text \<open>The rows of a task.\<close>

definition rows :: "task \<Rightarrow> int set" where
  "rows t = {row_start t ..< row_end t}"

text \<open>
  For the proofs: the task the loop builds at index \<open>i\<close>, and the indices at which
  it builds one.
\<close>

definition mk_task :: "int \<Rightarrow> int \<Rightarrow> int \<Rightarrow> task" where
  "mk_task height linesPerThread i =
     \<lparr>row_start = i * linesPerThread, row_end = min ((i + 1) * linesPerThread) height\<rparr>"

definition starts :: "int \<Rightarrow> int \<Rightarrow> int \<Rightarrow> int list" where
  "starts height nthreads linesPerThread =
     filter (\<lambda>k. k * linesPerThread < height) [0..nthreads - 1]"

section \<open>filters.js: the block transforms\<close>

text \<open>
  The pixel buffers are \<open>Uint8Array\<close>s, which the transforms receive by reference:
  the model keeps them in a store indexed by the identity of the array.  Reading an index
  outside the array gives \<open>undefined\<close> (\<open>None\<close>), writing there is ignored, and a
  number written is reduced modulo 256 (NaN becomes 0).
\<close>

type_synonym u8 = "8 word"
type_synonym bufref = nat
type_synonym heap = "bufref \<Rightarrow> u8 list"

definition getIndex :: "heap \<Rightarrow> bufref \<Rightarrow> int \<Rightarrow> u8 option" where
  "getIndex h a i =
     (if 0 \<le> i \<and> i < int (length (h a)) then Some (h a ! nat i) else None)"

definition setIndex :: "heap \<Rightarrow> bufref \<Rightarrow> int \<Rightarrow> u8 \<Rightarrow> heap" where
  "setIndex h a i v =
     (if 0 \<le> i \<and> i < int (length (h a)) then h(a := (h a)[nat i := v]) else h)"

text \<open>The conversion of a number to a byte; \<open>None\<close> is NaN.\<close>

definition toUint8 :: "int option \<Rightarrow> u8" where
  "toUint8 x = (case x of None \<Rightarrow> 0 | Some n \<Rightarrow> word_of_int n)"

text \<open>
  \<open>applyNegativeBlock\<close>, lines 12 to 38.  The minimum and maximum it keeps are only
  logged and are left out.  The result is the store after the call and the number the
  function returns.
\<close>

function applyNegativeBlock_loop ::
  "heap \<Rightarrow> bufref \<Rightarrow> bufref \<Rightarrow> int \<Rightarrow> int \<Rightarrow> int \<Rightarrow> heap" where
  "applyNegativeBlock_loop h inputData outputData maxValue i endPixel =
     (if i < endPixel
      then (let r = getIndex h inputData i;
                L = maxValue + 1;
                s = (case r of None \<Rightarrow> None | Some z \<Rightarrow> Some (L - 1 - uint z))
            in applyNegativeBlock_loop (setIndex h outputData i (toUint8 s))
                 inputData outputData maxValue (i + 1) endPixel)
      else h)"
  by pat_completeness auto
termination
  by (relation "measure (\<lambda>(h, inputData, outputData, maxValue, i, endPixel). nat (endPixel - i))")
    auto

declare applyNegativeBlock_loop.simps [simp del]

definition applyNegativeBlock ::
  "heap \<Rightarrow> bufref \<Rightarrow> bufref \<Rightarrow> int \<Rightarrow> int \<Rightarrow> int \<Rightarrow> int \<Rightarrow> heap \<times> int" where
  "applyNegativeBlock h inputData outputData width rowStart rowEnd maxValue =
     (let startPixel = rowStart * width;
          endPixel = rowEnd * width
      in (applyNegativeBlock_loop h inputData outputData maxValue startPixel endPixel,
          endPixel - startPixel))"

text \<open>
  \<open>applySliceBlock\<close> of filters.js, lines 53 to 85.  A comparison with
  \<open>undefined\<close> is false.  The two counters are only logged and are left out.
\<close>

function applySliceBlock_loop ::
  "heap \<Rightarrow> bufref \<Rightarrow> bufref \<Rightarrow> int \<Rightarrow> int \<Rightarrow> int \<Rightarrow> int \<Rightarrow> heap" where
  "applySliceBlock_loop h inputData outputData limite_a limite_b i endPixel =
     (if i < endPixel
      then (let k = 255;
                z = getIndex h inputData i
            in applySliceBlock_loop
                 (if (case z of None \<Rightarrow> False | Some v \<Rightarrow> uint v \<le> limite_a \<or> uint v \<ge> limite_b)
                  then setIndex h outputData i 0
                  else setIndex h outputData i k)
                 inputData outputData limite_a limite_b (i + 1) endPixel)
      else h)"
  by pat_completeness auto
termination
  by (relation "measure (\<lambda>(h, inputData, outputData, limite_a, limite_b, i, endPixel). nat (endPixel - i))")
    auto

declare applySliceBlock_loop.simps [simp del]

definition applySliceBlock ::
  "heap \<Rightarrow> bufref \<Rightarrow> bufref \<Rightarrow> int \<Rightarrow> int \<Rightarrow> int \<Rightarrow> int \<Rightarrow> int \<Rightarrow> heap \<times> int" where
  "applySliceBlock h inputData outputData width rowStart rowEnd limite_a limite_b =
     (let startPixel = rowStart * width;
          endPixel = rowEnd * width
      in (applySliceBlock_loop h inputData outputData limite_a limite_b startPixel endPixel,
          endPixel - startPixel))"

text \<open>
  The second copy of \<open>applySliceBlock\<close> in the sources (the filters module that follows
  sender.js, lines 202 to 219): it writes 255 outside the band and the pixel itself
  inside.  Writing \<open>undefined\<close> stores 0.
\<close>

function applySliceBlock_copy_loop ::
  "heap \<Rightarrow> bufref \<Rightarrow> bufref \<Rightarrow> int \<Rightarrow> int \<Rightarrow> int \<Rightarrow> int \<Rightarrow> heap" where
  "applySliceBlock_copy_loop h inputData outputData limite_a limite_b i endPixel =
     (if i < endPixel
      then (let valor_pixel_original = getIndex h inputData i
            in applySliceBlock_copy_loop
                 (if (case valor_pixel_original of None \<Rightarrow> False
                      | Some v \<Rightarrow> uint v \<le> limite_a \<or> uint v \<ge> limite_b)
                  then setIndex h outputData i 255
                  else setIndex h outputData i
                         (toUint8 (map_option uint valor_pixel_original)))
                 inputData outputData limite_a limite_b (i + 1) endPixel)
      else h)"
  by pat_completeness auto
termination
  by (relation "measure (\<lambda>(h, inputData, outputData, limite_a, limite_b, i, endPixel). nat (endPixel - i))")
    auto

declare applySliceBlock_copy_loop.simps [simp del]

definition applySliceBlock_copy ::
  "heap \<Rightarrow> bufref \<Rightarrow> bufref \<Rightarrow> int \<Rightarrow> int \<Rightarrow> int \<Rightarrow> int \<Rightarrow> int \<Rightarrow> heap \<times> int" where
  "applySliceBlock_copy h inputData outputData width rowStart rowEnd limite_a limite_b =
     (let startPixel = rowStart * width;
          endPixel = rowEnd * width
      in (applySliceBlock_copy_loop h inputData outputData limite_a limite_b startPixel endPixel,
          endPixel - startPixel))"

text \<open>
  For the proofs: the three loops are one loop that writes, at each index, a function of
  what it reads there.
\<close>

function pixel_loop ::
  "(u8 option \<Rightarrow> u8) \<Rightarrow> heap \<Rightarrow> bufref \<Rightarrow> bufref \<Rightarrow> int \<Rightarrow> int \<Rightarrow> heap" where
  "pixel_loop f h inputData outputData i endPixel =
     (if i < endPixel
      then pixel_loop f (setIndex h outputData i (f (getIndex h inputData i)))
             inputData outputData (i + 1) endPixel
      else h)"
  by pat_completeness auto
termination
  by (relation "measure (\<lambda>(f, h, inputData, outputData, i, endPixel). nat (endPixel - i))")
    auto

declare pixel_loop.simps [simp del]

definition negative_pixel :: "int \<Rightarrow> u8 option \<Rightarrow> u8" where
  "negative_pixel maxValue r =
     toUint8 (case r of None \<Rightarrow> None | Some z \<Rightarrow> Some (maxValue + 1 - 1 - uint z))"

definition slice_pixel :: "int \<Rightarrow> int \<Rightarrow> u8 option \<Rightarrow> u8" where
  "slice_pixel limite_a limite_b z =
     (if (case z of None \<Rightarrow> False | Some v \<Rightarrow> uint v \<le> limite_a \<or> uint v \<ge> limite_b)
      then 0 else 255)"

definition slice_copy_pixel :: "int \<Rightarrow> int \<Rightarrow> u8 option \<Rightarrow> u8" where
  "slice_copy_pixel limite_a limite_b z =
     (if (case z of None \<Rightarrow> False | Some v \<Rightarrow> uint v \<le> limite_a \<or> uint v \<ge> limite_b)
      then 255 else toUint8 (map_option uint z))"

text \<open>A store for the examples: four pixels in array 0, and two more arrays of that size.\<close>

definition heap0 :: heap where
  "heap0 = (\<lambda>a. [])(0 := [10, 75, 150, 200], 1 := [1, 2, 3, 4], 2 := [9, 9, 9, 9])"

section \<open>pgm-utils.js: Header and PGM\<close>

text \<open>
  \<open>class Header\<close>: six numbers, \<open>w\<close>, \<open>h\<close>, \<open>maxv\<close>, \<open>mode\<close>, \<open>t1\<close>,
  \<open>t2\<close>.  (The fields carry a prefix here: \<open>w\<close> and \<open>h\<close> alone would take the
  names of variables.)
\<close>

record header =
  hdr_w :: int
  hdr_h :: int
  hdr_maxv :: int
  hdr_mode :: int
  hdr_t1 :: int
  hdr_t2 :: int

definition Header_new :: header where
  "Header_new = \<lparr>hdr_w = 0, hdr_h = 0, hdr_maxv = 255, hdr_mode = 0, hdr_t1 = 0, hdr_t2 = 0\<rparr>"

text \<open>
  Node's \<open>Buffer\<close> accessors, as Node defines them.  \<open>writeInt32LE(value, offset)\<close>
  throws unless \<open>value\<close> is a 32-bit signed integer and the four bytes lie inside the
  buffer; it stores \<open>value\<close>, \<open>value >>> 8\<close>, \<open>value >>> 16\<close> and
  \<open>value >>> 24\<close>, each reduced to a byte (\<open>>>>\<close> shifts the unsigned 32-bit
  value).  \<open>readInt32LE(offset)\<close> throws unless the four bytes lie inside the buffer and
  returns \<open>b0 + b1 * 2 ** 8 + b2 * 2 ** 16 + (b3 << 24)\<close>, the shift being a signed
  32-bit one.
\<close>

definition writeInt32LE :: "u8 list \<Rightarrow> int \<Rightarrow> nat \<Rightarrow> js_error + u8 list" where
  "writeInt32LE buf v offset =
     (if v < - (2 ^ 31) \<or> v > 2 ^ 31 - 1 \<or> offset + 4 > length buf then Inl OutOfRange
      else Inr (buf[offset := word_of_int v,
                    offset + 1 := word_of_int (v mod 2 ^ 32 div 2 ^ 8),
                    offset + 2 := word_of_int (v mod 2 ^ 32 div 2 ^ 16),
                    offset + 3 := word_of_int (v mod 2 ^ 32 div 2 ^ 24)]))"

definition readInt32LE :: "u8 list \<Rightarrow> nat \<Rightarrow> js_error + int" where
  "readInt32LE buf offset =
     (if offset + 3 < length buf
      then Inr (uint (buf ! offset) + uint (buf ! (offset + 1)) * 2 ^ 8
                + uint (buf ! (offset + 2)) * 2 ^ 16 + sint (buf ! (offset + 3)) * 2 ^ 24)
      else Inl OutOfRange)"

text \<open>A statement that may throw, followed by the rest of the block.\<close>

definition and_then :: "js_error + 'a \<Rightarrow> ('a \<Rightarrow> js_error + 'b) \<Rightarrow> js_error + 'b" where
  "and_then r f = (case r of Inl e \<Rightarrow> Inl e | Inr x \<Rightarrow> f x)"

text \<open>\<open>Header.toBuffer()\<close>, lines 44 to 53; \<open>Buffer.alloc(24)\<close> is 24 zero bytes.\<close>

definition toBuffer :: "header \<Rightarrow> js_error + u8 list" where
  "toBuffer this =
     and_then (writeInt32LE (replicate 24 0) (hdr_w this) 0) (\<lambda>buffer.
     and_then (writeInt32LE buffer (hdr_h this) 4) (\<lambda>buffer.
     and_then (writeInt32LE buffer (hdr_maxv this) 8) (\<lambda>buffer.
     and_then (writeInt32LE buffer (hdr_mode this) 12) (\<lambda>buffer.
     and_then (writeInt32LE buffer (hdr_t1 this) 16) (\<lambda>buffer.
     and_then (writeInt32LE buffer (hdr_t2 this) 20) (\<lambda>buffer.
     Inr buffer))))))"

text \<open>
  \<open>Header.fromBuffer(buffer)\<close>, lines 58 to 65: it assigns the six fields of
  \<open>this\<close> in turn; a read that throws ends it.
\<close>

definition fromBuffer :: "header \<Rightarrow> u8 list \<Rightarrow> js_error + header" where
  "fromBuffer this buffer =
     and_then (readInt32LE buffer 0) (\<lambda>v. let this = this\<lparr>hdr_w := v\<rparr> in
     and_then (readInt32LE buffer 4) (\<lambda>v. let this = this\<lparr>hdr_h := v\<rparr> in
     and_then (readInt32LE buffer 8) (\<lambda>v. let this = this\<lparr>hdr_maxv := v\<rparr> in
     and_then (readInt32LE buffer 12) (\<lambda>v. let this = this\<lparr>hdr_mode := v\<rparr> in
     and_then (readInt32LE buffer 16) (\<lambda>v. let this = this\<lparr>hdr_t1 := v\<rparr> in
     and_then (readInt32LE buffer 20) (\<lambda>v. let this = this\<lparr>hdr_t2 := v\<rparr> in
     Inr this))))))"

text \<open>
  \<open>class PGM\<close>.  The constructor keeps the \<open>data\<close> it is given whenever that is an
  object (a \<open>Buffer\<close> is one, also an empty one).
\<close>

record pgm =
  pgm_w :: int
  pgm_h :: int
  pgm_maxv :: int
  pgm_data :: "u8 list"

definition PGM_new :: "int \<Rightarrow> int \<Rightarrow> int \<Rightarrow> u8 list \<Rightarrow> pgm" where
  "PGM_new width height maxValue data =
     \<lparr>pgm_w = width, pgm_h = height, pgm_maxv = maxValue, pgm_data = data\<rparr>"

section \<open>worker.js: receiving the image\<close>

text \<open>
  Node's \<open>buf.slice(start, end)\<close>: a negative offset counts from the end of the
  buffer, and every offset is clamped to the buffer.
\<close>

definition adjustOffset :: "int \<Rightarrow> nat \<Rightarrow> nat" where
  "adjustOffset offset len =
     (if offset = 0 then 0
      else if offset < 0 then (if offset + int len > 0 then nat (offset + int len) else 0)
      else if offset < int len then nat offset
      else len)"

definition buffer_slice :: "u8 list \<Rightarrow> int \<Rightarrow> int \<Rightarrow> u8 list" where
  "buffer_slice buf start stop =
     (let s = adjustOffset start (length buf);
          e = adjustOffset stop (length buf)
      in if e > s then take (e - s) (drop s buf) else [])"

text \<open>
  The \<open>end\<close> handler of \<open>receiveImageData\<close>, lines 85 to 115, as a function of the
  bytes read from the FIFO: the error it rejects with, or the image it resolves with.
\<close>

definition receiveImageData :: "u8 list \<Rightarrow> js_error + pgm" where
  "receiveImageData fullBuffer =
     (if length fullBuffer < 24 then Inl HeaderTooShort
      else and_then (fromBuffer Header_new (buffer_slice fullBuffer 0 24)) (\<lambda>header.
        let expectedDataSize = hdr_w header * hdr_h header;
            imageData = buffer_slice fullBuffer 24 (24 + expectedDataSize)
        in if int (length imageData) \<noteq> expectedDataSize
           then Inl (ImageDataIncomplete expectedDataSize (int (length imageData)))
           else Inr (PGM_new (hdr_w header) (hdr_h header) (hdr_maxv header) imageData)))"

text \<open>
  A stream for the examples: the header of a 1 by 1 image with \<open>maxv = 255\<close>, followed
  by two bytes.
\<close>

definition stream0 :: "u8 list" where
  "stream0 = [1, 0, 0, 0,  1, 0, 0, 0,  255, 0, 0, 0,  0, 0, 0, 0,  0, 0, 0, 0,  0, 0, 0, 0,
              7, 9]"

text \<open>The numbers \<open>writeInt32LE\<close> accepts.\<close>

definition is_int32 :: "int \<Rightarrow> bool" where
  "is_int32 v = (- (2 ^ 31) \<le> v \<and> v \<le> 2 ^ 31 - 1)"

text \<open>For the proofs: the buffer after a \<open>writeInt32LE\<close> that does not throw.\<close>

definition put32 :: "u8 list \<Rightarrow> int \<Rightarrow> nat \<Rightarrow> u8 list" where
  "put32 buf v offset =
     buf[offset := word_of_int v,
         offset + 1 := word_of_int (v mod 2 ^ 32 div 2 ^ 8),
         offset + 2 := word_of_int (v mod 2 ^ 32 div 2 ^ 16),
         offset + 3 := word_of_int (v mod 2 ^ 32 div 2 ^ 24)]"

section \<open>worker.js: the command line\<close>

text \<open>
  A JavaScript number that is an integer or NaN (\<open>None\<close>).  A comparison with NaN is
  false.
\<close>

type_synonym jsnum = "int option"

definition js_lt :: "jsnum \<Rightarrow> jsnum \<Rightarrow> bool" where
  "js_lt a b = (case a of None \<Rightarrow> False | Some x \<Rightarrow> (case b of None \<Rightarrow> False | Some y \<Rightarrow> x < y))"

definition js_gt :: "jsnum \<Rightarrow> jsnum \<Rightarrow> bool" where
  "js_gt a b = js_lt b a"

text \<open>
  \<open>parseInt(string)\<close> with no radix, as the language defines it: leading white space
  is skipped, a sign is read, the prefix \<open>0x\<close> or \<open>0X\<close> selects radix 16, and the
  longest run of digits that follows is the value; with no digit the result is NaN.  (Of
  the white space characters only those of ASCII are modelled.)
\<close>

definition isWhiteSpace :: "char \<Rightarrow> bool" where
  "isWhiteSpace c = ((of_char c :: nat) \<in> {9, 10, 11, 12, 13, 32})"

definition digitValue :: "char \<Rightarrow> nat option" where
  "digitValue c =
     (let n = (of_char c :: nat)
      in if 48 \<le> n \<and> n \<le> 57 then Some (n - 48)
         else if 97 \<le> n \<and> n \<le> 122 then Some (n - 87)
         else if 65 \<le> n \<and> n \<le> 90 then Some (n - 55)
         else None)"

definition isRadixDigit :: "nat \<Rightarrow> char \<Rightarrow> bool" where
  "isRadixDigit R c = (case digitValue c of None \<Rightarrow> False | Some d \<Rightarrow> d < R)"

definition digitsValue :: "nat \<Rightarrow> string \<Rightarrow> nat" where
  "digitsValue R Z =
     foldl (\<lambda>acc c. acc * R + (case digitValue c of None \<Rightarrow> 0 | Some d \<Rightarrow> d)) 0 Z"

definition parseInt :: "string \<Rightarrow> jsnum" where
  "parseInt inputString =
     (let S = dropWhile isWhiteSpace inputString;
          sign = (if S \<noteq> [] \<and> hd S = CHR ''-'' then - 1 else 1);
          S = (if S \<noteq> [] \<and> (hd S = CHR ''+'' \<or> hd S = CHR ''-'') then tl S else S);
          hex = (length S \<ge> 2 \<and> (take 2 S = ''0x'' \<or> take 2 S = ''0X''));
          R = (if hex then 16 else 10);
          S = (if hex then drop 2 S else S);
          Z = takeWhile (isRadixDigit R) S
      in if Z = [] then None else Some (sign * int (digitsValue R Z)))"

text \<open>The constants \<open>MODE_NEG\<close> and \<open>MODE_SLICE\<close> of pgm-utils.js.\<close>

definition MODE_NEG :: int where
  "MODE_NEG = 0"

definition MODE_SLICE :: int where
  "MODE_SLICE = 1"

text \<open>
  \<open>validateSliceParams(t1, t2)\<close> of filters.js, lines 112 to 126, with its default
  \<open>maxValue = 255\<close>.
\<close>

definition validateSliceParams :: "jsnum \<Rightarrow> jsnum \<Rightarrow> jsnum \<Rightarrow> js_error + bool" where
  "validateSliceParams t1 t2 maxValue =
     (if js_lt t1 (Some 0) \<or> js_gt t1 maxValue then Inl SliceParamT1
      else if js_lt t2 (Some 0) \<or> js_gt t2 maxValue then Inl SliceParamT2
      else if js_gt t1 t2 then Inl SliceParamOrder
      else Inr True)"

text \<open>
  What \<open>parseArgs\<close> does: it ends the process with an exit code, it throws, or it
  returns the configuration.
\<close>

datatype 'a proc = Exits nat | Raises js_error | Returns 'a

record config =
  fifoPath :: string
  outputPath :: string
  cfg_mode :: int
  cfg_t1 :: jsnum
  cfg_t2 :: jsnum
  nthreads :: jsnum

text \<open>The last check of \<open>parseArgs\<close>, lines 63 to 68.\<close>

definition check_nthreads :: "config \<Rightarrow> config proc" where
  "check_nthreads c =
     (if js_lt (nthreads c) (Some 1) \<or> js_gt (nthreads c) (Some 32) then Exits 1
      else Returns c)"

text \<open>
  \<open>parseArgs\<close>, lines 25 to 69, as a function of \<open>process.argv.slice(2)\<close>.
\<close>

definition parseArgs :: "string list \<Rightarrow> config proc" where
  "parseArgs args =
     (if length args < 3 then Exits 1
      else
        (let fifoPath = args ! 0;
             outputPath = args ! 1;
             modeStr = args ! 2
         in if modeStr = ''negativo''
            then check_nthreads
                   \<lparr>fifoPath = fifoPath, outputPath = outputPath, cfg_mode = MODE_NEG,
                    cfg_t1 = Some 0, cfg_t2 = Some 255,
                    nthreads = (if length args \<ge> 4 then parseInt (args ! 3) else Some 4)\<rparr>
            else if modeStr = ''slice''
            then (if length args < 5 then Exits 1
                  else
                    (let t1 = parseInt (args ! 3);
                         t2 = parseInt (args ! 4);
                         n = (if length args \<ge> 6 then parseInt (args ! 5) else Some 4)
                     in case validateSliceParams t1 t2 (Some 255) of
                          Inl e \<Rightarrow> Raises e
                        | Inr ok \<Rightarrow>
                            check_nthreads
                              \<lparr>fifoPath = fifoPath, outputPath = outputPath,
                               cfg_mode = MODE_SLICE, cfg_t1 = t1, cfg_t2 = t2,
                               nthreads = n\<rparr>))
            else Exits 1))"

text \<open>
  \<open>main\<close>, lines 244 to 286, up to the call of \<open>parseArgs\<close>: an error thrown
  inside the \<open>try\<close> block ends the process with exit code 1.
\<close>

definition main_parseArgs :: "string list \<Rightarrow> config proc" where
  "main_parseArgs args =
     (case parseArgs args of
        Exits code \<Rightarrow> Exits code | Raises e \<Rightarrow> Exits 1 | Returns c \<Rightarrow> Returns c)"

section \<open>sync-utils.js: overlapping calls of taskCompleted\<close>

text \<open>
  Calls of \<open>taskCompleted()\<close> that are started before earlier ones have ended.  A call
  runs in three pieces, each without interruption: the \<open>lock()\<close> inside \<open>withLock\<close>,
  which takes the mutex or queues the caller; after the \<open>await\<close> of the lock, the body;
  after the \<open>await\<close> of the body, the \<open>unlock()\<close> of the \<open>finally\<close> block, which
  resumes the head of the queue.  Between the pieces any other call may run one of its
  own.  The waiter of call \<open>i\<close> is named \<open>i\<close>.
\<close>

datatype pc = Start | Queued | Locked | BodyDone | Done

record conc =
  c_coord :: coordinator
  c_pcs :: "pc list"
  c_threw :: bool

definition conc_init :: "int \<Rightarrow> nat \<Rightarrow> conc" where
  "conc_init totalTasks n =
     \<lparr>c_coord = CompletionCoordinator_new totalTasks, c_pcs = replicate n Start,
      c_threw = False\<rparr>"

text \<open>
  The next piece of call \<open>i\<close>; a call that is queued or has ended has none.
  \<open>c_threw\<close> records an \<open>unlock()\<close> that threw.
\<close>

definition call_step :: "nat \<Rightarrow> conc \<Rightarrow> conc" where
  "call_step i s =
     (if i \<ge> length (c_pcs s) then s
      else
        (case c_pcs s ! i of
           Start \<Rightarrow>
             (case lock (cc_mutex (c_coord s)) i of
                (acquired, m) \<Rightarrow>
                  s\<lparr>c_coord := (c_coord s)\<lparr>cc_mutex := m\<rparr>,
                    c_pcs := (c_pcs s)[i := (if acquired then Locked else Queued)]\<rparr>)
         | Queued \<Rightarrow> s
         | Locked \<Rightarrow>
             s\<lparr>c_coord := snd (taskCompleted_body (c_coord s)),
               c_pcs := (c_pcs s)[i := BodyDone]\<rparr>
         | BodyDone \<Rightarrow>
             (case unlock (cc_mutex (c_coord s)) of
                (Inl e, m) \<Rightarrow> s\<lparr>c_pcs := (c_pcs s)[i := Done], c_threw := True\<rparr>
              | (Inr None, m) \<Rightarrow>
                  s\<lparr>c_coord := (c_coord s)\<lparr>cc_mutex := m\<rparr>,
                    c_pcs := (c_pcs s)[i := Done]\<rparr>
              | (Inr (Some j), m) \<Rightarrow>
                  s\<lparr>c_coord := (c_coord s)\<lparr>cc_mutex := m\<rparr>,
                    c_pcs := (c_pcs s)[i := Done, j := Locked]\<rparr>)
         | Done \<Rightarrow> s))"

text \<open>A schedule names, piece by piece, the call that runs next.\<close>

fun run_schedule :: "nat list \<Rightarrow> conc \<Rightarrow> conc" where
  "run_schedule [] s = s"
| "run_schedule (i # sched) s = run_schedule sched (call_step i s)"

text \<open>The calls whose body has run, and their number.\<close>

definition ran :: "pc \<Rightarrow> bool" where
  "ran p = (p = BodyDone \<or> p = Done)"

definition bodies_run :: "conc \<Rightarrow> int" where
  "bodies_run s = int (length (filter ran (c_pcs s)))"

text \<open>
  For the proofs: a call that holds the mutex, and the two invariants of every schedule,
  one for the mutex and the calls, one for the counter, the flag and the semaphore.
\<close>

definition holder :: "pc \<Rightarrow> bool" where
  "holder p = (p = Locked \<or> p = BodyDone)"

definition mutex_inv :: "mutex \<Rightarrow> pc list \<Rightarrow> bool" where
  "mutex_inv m pcs =
     ((m_locked m \<longleftrightarrow> (\<exists>i < length pcs. holder (pcs ! i))) \<and>
      (\<forall>i j. i < length pcs \<and> j < length pcs \<and> holder (pcs ! i) \<and> holder (pcs ! j)
           \<longrightarrow> i = j) \<and>
      distinct (m_waitQueue m) \<and>
      (\<forall>j. j \<in> set (m_waitQueue m) \<longleftrightarrow> j < length pcs \<and> pcs ! j = Queued) \<and>
      (m_waitQueue m \<noteq> [] \<longrightarrow> m_locked m))"

definition data_inv :: "int \<Rightarrow> conc \<Rightarrow> bool" where
  "data_inv N s =
     (\<not> c_threw s \<and>
      remainingTasks (c_coord s) = N - bodies_run s \<and>
      completed (c_coord s) = (max 1 N \<le> bodies_run s) \<and>
      semDone (c_coord s)
        = \<lparr>s_count = (if max 1 N \<le> bodies_run s then 1 else 0), s_waitQueue = []\<rparr>)"

definition conc_inv :: "int \<Rightarrow> conc \<Rightarrow> bool" where
  "conc_inv N s = (data_inv N s \<and> mutex_inv (cc_mutex (c_coord s)) (c_pcs s))"

section \<open>Properties of the mutex\<close>

text \<open>
  Claim C7.  On a mutex that is not held, \<open>unlock()\<close> raises its error and leaves
  the held flag and the waiter queue as they were; on a held mutex it does not raise.
\<close>

theorem unlock_unheld_raises:
  "(\<not> m_locked m \<longrightarrow> unlock m = (Inl UnlockNotLocked, m)) \<and>
   (m_locked m \<longrightarrow> (\<exists>resumed. fst (unlock m) = Inr resumed))"
  by (simp add: unlock_def)

theorem unlock_unheld_raises_witness:
  "\<not> m_locked \<lparr>m_locked = False, m_waitQueue = [7]\<rparr> \<and>
   unlock \<lparr>m_locked = False, m_waitQueue = [7]\<rparr>
     = (Inl UnlockNotLocked, \<lparr>m_locked = False, m_waitQueue = [7]\<rparr>) \<and>
   m_locked \<lparr>m_locked = True, m_waitQueue = [7]\<rparr> \<and>
   fst (unlock \<lparr>m_locked = True, m_waitQueue = [7]\<rparr>) = Inr (Some 7)"
  using unlock_unheld_raises [of "\<lparr>m_locked = False, m_waitQueue = [7]\<rparr>"]
    unlock_unheld_raises [of "\<lparr>m_locked = True, m_waitQueue = [7]\<rparr>"]
  by (simp add: unlock_def)

section \<open>Properties of the completion coordinator\<close>

lemma withLock_free:
  "cc_mutex c = Mutex_new \<Longrightarrow>
   withLock fn c =
     (case fn (c\<lparr>cc_mutex := \<lparr>m_locked = True, m_waitQueue = []\<rparr>\<rparr>) of
        (r, c2) \<Rightarrow>
          (case unlock (cc_mutex c2) of
             (Inl e, m3) \<Rightarrow> Threw e
           | (Inr resumed, m3) \<Rightarrow> Returned (r, c2\<lparr>cc_mutex := m3\<rparr>)))"
  by (simp add: withLock_def lock_def Mutex_new_def)

lemma taskCompleted_free:
  "cc_mutex c = Mutex_new \<Longrightarrow> taskCompleted c = Returned (snd (taskCompleted_body c))"
  by (cases c)
    (simp add: taskCompleted_def withLock_free taskCompleted_body_def unlock_def
      Mutex_new_def Let_def)

text \<open>
  The state after \<open>k\<close> calls on a fresh coordinator, by induction on \<open>k\<close>: every
  call returns, the counter is \<open>N - k\<close>, and the flag and the semaphore say whether
  call number \<open>max 1 N\<close> has been made.
\<close>

lemma taskCompleted_calls_state:
  "\<exists>c. taskCompleted_calls k (CompletionCoordinator_new N) = Returned c \<and>
     cc_mutex c = Mutex_new \<and>
     remainingTasks c = N - int k \<and>
     completed c = (max 1 N \<le> int k) \<and>
     semDone c = \<lparr>s_count = (if max 1 N \<le> int k then 1 else 0), s_waitQueue = []\<rparr>"
proof (induction k)
  case 0
  show ?case
    by (simp add: CompletionCoordinator_new_def Semaphore_new_def)
next
  case (Suc k)
  then obtain c where c:
    "taskCompleted_calls k (CompletionCoordinator_new N) = Returned c"
    "cc_mutex c = Mutex_new"
    "remainingTasks c = N - int k"
    "completed c = (max 1 N \<le> int k)"
    "semDone c = \<lparr>s_count = (if max 1 N \<le> int k then 1 else 0), s_waitQueue = []\<rparr>"
    by blast
  show ?case
    using c by (auto simp add: taskCompleted_free taskCompleted_body_def Let_def signal_def)
qed

subsection \<open>Overlapping calls\<close>

text \<open>
  Each piece of a call keeps the invariant of the mutex: the mutex is locked exactly when
  one call holds it, no two calls hold it, and the queue lists, once each, the calls that
  are suspended.
\<close>

lemma mutex_inv_acquire:
  assumes "mutex_inv m pcs" "i < length pcs" "pcs ! i = Start" "\<not> m_locked m"
  shows "mutex_inv (m\<lparr>m_locked := True\<rparr>) (pcs[i := Locked])"
  using assms
  by (auto simp add: mutex_inv_def nth_list_update holder_def)

lemma mutex_inv_enqueue:
  assumes "mutex_inv m pcs" "i < length pcs" "pcs ! i = Start" "m_locked m"
  shows "mutex_inv (m\<lparr>m_waitQueue := m_waitQueue m @ [i]\<rparr>) (pcs[i := Queued])"
proof -
  have notq: "i \<notin> set (m_waitQueue m)"
    using assms by (auto simp add: mutex_inv_def)
  have h: "\<And>k. k < length pcs \<Longrightarrow> holder (pcs[i := Queued] ! k) = holder (pcs ! k)"
    using assms by (auto simp add: nth_list_update holder_def)
  show ?thesis
    unfolding mutex_inv_def
  proof (intro conjI)
    show "m_locked (m\<lparr>m_waitQueue := m_waitQueue m @ [i]\<rparr>) =
        (\<exists>k<length (pcs[i := Queued]). holder (pcs[i := Queued] ! k))"
      using assms(1) h by (auto simp add: mutex_inv_def)
    show "\<forall>k j. k < length (pcs[i := Queued]) \<and> j < length (pcs[i := Queued]) \<and>
          holder (pcs[i := Queued] ! k) \<and> holder (pcs[i := Queued] ! j) \<longrightarrow> k = j"
      using assms(1) h by (auto simp add: mutex_inv_def)
    show "distinct (m_waitQueue (m\<lparr>m_waitQueue := m_waitQueue m @ [i]\<rparr>))"
      using assms(1) notq by (simp add: mutex_inv_def)
    show "\<forall>j. (j \<in> set (m_waitQueue (m\<lparr>m_waitQueue := m_waitQueue m @ [i]\<rparr>))) =
          (j < length (pcs[i := Queued]) \<and> pcs[i := Queued] ! j = Queued)"
      using assms(1,2) by (auto simp add: mutex_inv_def nth_list_update)
    show "m_waitQueue (m\<lparr>m_waitQueue := m_waitQueue m @ [i]\<rparr>) \<noteq> [] \<longrightarrow>
        m_locked (m\<lparr>m_waitQueue := m_waitQueue m @ [i]\<rparr>)"
      using assms(4) by simp
  qed
qed

lemma mutex_inv_body:
  assumes "mutex_inv m pcs" "i < length pcs" "pcs ! i = Locked"
  shows "mutex_inv m (pcs[i := BodyDone])"
proof -
  have h: "\<And>k. k < length pcs \<Longrightarrow> holder (pcs[i := BodyDone] ! k) = holder (pcs ! k)"
    using assms by (auto simp add: nth_list_update holder_def)
  have q: "\<And>k. k < length pcs \<Longrightarrow> (pcs[i := BodyDone] ! k = Queued) = (pcs ! k = Queued)"
    using assms by (auto simp add: nth_list_update)
  show ?thesis
    using assms(1) h q by (auto simp add: mutex_inv_def)
qed

lemma mutex_inv_release:
  assumes "mutex_inv m pcs" "i < length pcs" "pcs ! i = BodyDone" "m_waitQueue m = []"
  shows "mutex_inv (m\<lparr>m_locked := False\<rparr>) (pcs[i := Done])"
proof -
  have only: "\<And>k. k < length pcs \<Longrightarrow> holder (pcs ! k) \<Longrightarrow> k = i"
    using assms by (auto simp add: mutex_inv_def holder_def)
  have h: "\<not> holder (pcs[i := Done] ! k)" if "k < length pcs" for k
  proof (cases "k = i")
    case True
    with that show ?thesis by (simp add: holder_def)
  next
    case False
    with only [OF that] show ?thesis by auto
  qed
  have q: "\<And>k. k < length pcs \<Longrightarrow> (pcs[i := Done] ! k = Queued) = (pcs ! k = Queued)"
    using assms by (auto simp add: nth_list_update)
  show ?thesis
    using assms(1,4) h q by (auto simp add: mutex_inv_def)
qed

lemma mutex_inv_handover:
  assumes "mutex_inv m pcs" "i < length pcs" "pcs ! i = BodyDone" "m_waitQueue m = j # rest"
  shows "mutex_inv (m\<lparr>m_waitQueue := rest\<rparr>) (pcs[i := Done, j := Locked])"
proof -
  let ?pcs' = "pcs[i := Done, j := Locked]"
  have "j \<in> set (m_waitQueue m)"
    using assms(4) by simp
  then have jq: "j < length pcs \<and> pcs ! j = Queued"
    using assms(1) by (simp add: mutex_inv_def)
  have "distinct (j # rest)"
    using assms(1,4) by (simp add: mutex_inv_def)
  with jq assms(3) have j: "j < length pcs" "pcs ! j = Queued" "j \<noteq> i" "j \<notin> set rest"
      "distinct rest"
    by auto
  have held: "m_locked m"
    using assms by (auto simp add: mutex_inv_def)
  have only: "\<And>k. k < length pcs \<Longrightarrow> holder (pcs ! k) \<Longrightarrow> k = i"
    using assms by (auto simp add: mutex_inv_def holder_def)
  have h: "holder (?pcs' ! k) = (k = j)" if "k < length pcs" for k
  proof (cases "k = j")
    case True
    with that show ?thesis by (simp add: holder_def)
  next
    case False
    show ?thesis
    proof (cases "k = i")
      case True
      with that j(3) show ?thesis by (simp add: holder_def)
    next
      case False
      with \<open>k \<noteq> j\<close> only [OF that] show ?thesis by auto
    qed
  qed
  have q: "\<And>k. k < length pcs \<Longrightarrow> (?pcs' ! k = Queued) = (pcs ! k = Queued \<and> k \<noteq> j)"
    using assms(2,3) j by (auto simp add: nth_list_update)
  have inrest: "\<And>k. k \<in> set rest \<longleftrightarrow> k < length pcs \<and> pcs ! k = Queued \<and> k \<noteq> j"
    using assms(1,4) j by (auto simp add: mutex_inv_def)
  show ?thesis
    unfolding mutex_inv_def
  proof (intro conjI)
    show "m_locked (m\<lparr>m_waitQueue := rest\<rparr>) = (\<exists>k<length ?pcs'. holder (?pcs' ! k))"
      using held h j(1) by auto
    show "\<forall>k l. k < length ?pcs' \<and> l < length ?pcs' \<and> holder (?pcs' ! k) \<and> holder (?pcs' ! l)
          \<longrightarrow> k = l"
      using h by auto
    show "distinct (m_waitQueue (m\<lparr>m_waitQueue := rest\<rparr>))"
      using j(5) by simp
    show "\<forall>k. (k \<in> set (m_waitQueue (m\<lparr>m_waitQueue := rest\<rparr>))) =
          (k < length ?pcs' \<and> ?pcs' ! k = Queued)"
      using inrest q by auto
    show "m_waitQueue (m\<lparr>m_waitQueue := rest\<rparr>) \<noteq> [] \<longrightarrow> m_locked (m\<lparr>m_waitQueue := rest\<rparr>)"
      using held by simp
  qed
qed


lemma count_update:
  "i < length xs \<Longrightarrow>
   int (length (filter P (xs[i := y]))) =
     int (length (filter P xs)) - (if P (xs ! i) then 1 else 0) + (if P y then 1 else 0)"
proof (induction xs arbitrary: i)
  case Nil
  then show ?case by simp
next
  case (Cons x xs)
  show ?case
  proof (cases i)
    case 0
    then show ?thesis by simp
  next
    case (Suc k)
    with Cons.prems have "k < length xs" by simp
    from Cons.IH [OF this] Suc show ?thesis by (auto split: if_splits)
  qed
qed

lemma conc_inv_init: "conc_inv N (conc_init N n)"
  by (auto simp add: conc_inv_def data_inv_def mutex_inv_def conc_init_def bodies_run_def
      ran_def holder_def CompletionCoordinator_new_def Semaphore_new_def Mutex_new_def)

lemma data_inv_same:
  assumes "data_inv N s" and "c_threw s' = c_threw s"
    and "remainingTasks (c_coord s') = remainingTasks (c_coord s)"
    and "completed (c_coord s') = completed (c_coord s)"
    and "semDone (c_coord s') = semDone (c_coord s)"
    and "bodies_run s' = bodies_run s"
  shows "data_inv N s'"
  using assms by (simp add: data_inv_def)

lemma data_inv_body:
  assumes "data_inv N s" and "\<not> c_threw s'"
    and "c_coord s' = snd (taskCompleted_body (c_coord s))"
    and "bodies_run s' = bodies_run s + 1"
  shows "data_inv N s'"
proof -
  have "0 \<le> bodies_run s"
    by (simp add: bodies_run_def)
  with assms show ?thesis
    by (auto simp add: data_inv_def taskCompleted_body_def Let_def signal_def)
qed

lemma conc_inv_same_data:
  assumes "data_inv N s" and "bodies_run s' = bodies_run s"
    and "c_threw s' = c_threw s"
    and "c_coord s' = (c_coord s)\<lparr>cc_mutex := m'\<rparr>"
    and "mutex_inv m' (c_pcs s')"
  shows "conc_inv N s'"
  using assms by (simp add: conc_inv_def data_inv_def)

lemma conc_inv_step:
  assumes inv: "conc_inv N s"
  shows "conc_inv N (call_step i s)"
proof (cases "i < length (c_pcs s)")
  case False
  with inv show ?thesis by (simp add: call_step_def)
next
  case i: True
  let ?pcs = "c_pcs s" and ?m = "cc_mutex (c_coord s)"
  from inv have d: "data_inv N s" and m: "mutex_inv ?m ?pcs"
    by (simp_all add: conc_inv_def)
  show ?thesis
  proof (cases "?pcs ! i")
    case Queued
    with inv i show ?thesis by (simp add: call_step_def)
  next
    case Done
    with inv i show ?thesis by (simp add: call_step_def)
  next
    case Start
    show ?thesis
    proof (cases "m_locked ?m")
      case False
      have step: "call_step i s =
          s\<lparr>c_coord := (c_coord s)\<lparr>cc_mutex := ?m\<lparr>m_locked := True\<rparr>\<rparr>,
            c_pcs := ?pcs[i := Locked]\<rparr>"
        using i Start False by (simp add: call_step_def lock_def)
      have b: "bodies_run (call_step i s) = bodies_run s"
        using i Start by (simp add: step bodies_run_def count_update ran_def)
      have f: "c_threw (call_step i s) = c_threw s"
        "c_coord (call_step i s) = (c_coord s)\<lparr>cc_mutex := ?m\<lparr>m_locked := True\<rparr>\<rparr>"
        "c_pcs (call_step i s) = ?pcs[i := Locked]"
        by (simp_all add: step)
      have "mutex_inv (?m\<lparr>m_locked := True\<rparr>) (c_pcs (call_step i s))"
        unfolding f(3) by (rule mutex_inv_acquire [OF m i Start False])
      from conc_inv_same_data [OF d b f(1) f(2) this] show ?thesis .
    next
      case True
      have step: "call_step i s =
          s\<lparr>c_coord := (c_coord s)\<lparr>cc_mutex := ?m\<lparr>m_waitQueue := m_waitQueue ?m @ [i]\<rparr>\<rparr>,
            c_pcs := ?pcs[i := Queued]\<rparr>"
        using i Start True by (simp add: call_step_def lock_def)
      have b: "bodies_run (call_step i s) = bodies_run s"
        using i Start by (simp add: step bodies_run_def count_update ran_def)
      have f: "c_threw (call_step i s) = c_threw s"
        "c_coord (call_step i s)
           = (c_coord s)\<lparr>cc_mutex := ?m\<lparr>m_waitQueue := m_waitQueue ?m @ [i]\<rparr>\<rparr>"
        "c_pcs (call_step i s) = ?pcs[i := Queued]"
        by (simp_all add: step)
      have "mutex_inv (?m\<lparr>m_waitQueue := m_waitQueue ?m @ [i]\<rparr>) (c_pcs (call_step i s))"
        unfolding f(3) by (rule mutex_inv_enqueue [OF m i Start True])
      from conc_inv_same_data [OF d b f(1) f(2) this] show ?thesis .
    qed
  next
    case Locked
    have step: "call_step i s =
        s\<lparr>c_coord := snd (taskCompleted_body (c_coord s)), c_pcs := ?pcs[i := BodyDone]\<rparr>"
      using i Locked by (simp add: call_step_def)
    have same_mutex: "cc_mutex (snd (taskCompleted_body (c_coord s))) = ?m"
      by (simp add: taskCompleted_body_def Let_def)
    have b: "bodies_run (call_step i s) = bodies_run s + 1"
      using i Locked by (simp add: step bodies_run_def count_update ran_def)
    have f: "c_threw (call_step i s) = c_threw s"
      "c_coord (call_step i s) = snd (taskCompleted_body (c_coord s))"
      "c_pcs (call_step i s) = ?pcs[i := BodyDone]"
      by (simp_all add: step)
    have nt: "\<not> c_threw (call_step i s)"
      using d f(1) by (simp add: data_inv_def)
    have "data_inv N (call_step i s)"
      by (rule data_inv_body [OF d nt f(2) b])
    moreover have "mutex_inv (cc_mutex (c_coord (call_step i s))) (c_pcs (call_step i s))"
      unfolding f(2) f(3) same_mutex by (rule mutex_inv_body [OF m i Locked])
    ultimately show ?thesis by (simp only: conc_inv_def simp_thms)
  next
    case BodyDone
    have held: "m_locked ?m"
      using m i BodyDone by (auto simp add: mutex_inv_def holder_def)
    show ?thesis
    proof (cases "m_waitQueue ?m")
      case Nil
      have step: "call_step i s =
          s\<lparr>c_coord := (c_coord s)\<lparr>cc_mutex := ?m\<lparr>m_locked := False\<rparr>\<rparr>,
            c_pcs := ?pcs[i := Done]\<rparr>"
        using i BodyDone held Nil by (simp add: call_step_def unlock_def)
      have b: "bodies_run (call_step i s) = bodies_run s"
        using i BodyDone by (simp add: step bodies_run_def count_update ran_def)
      have f: "c_threw (call_step i s) = c_threw s"
        "c_coord (call_step i s) = (c_coord s)\<lparr>cc_mutex := ?m\<lparr>m_locked := False\<rparr>\<rparr>"
        "c_pcs (call_step i s) = ?pcs[i := Done]"
        by (simp_all add: step)
      have "mutex_inv (?m\<lparr>m_locked := False\<rparr>) (c_pcs (call_step i s))"
        unfolding f(3) by (rule mutex_inv_release [OF m i BodyDone Nil])
      from conc_inv_same_data [OF d b f(1) f(2) this] show ?thesis .
    next
      case (Cons j rest)
      have step: "call_step i s =
          s\<lparr>c_coord := (c_coord s)\<lparr>cc_mutex := ?m\<lparr>m_waitQueue := rest\<rparr>\<rparr>,
            c_pcs := ?pcs[i := Done, j := Locked]\<rparr>"
        using i BodyDone held Cons by (simp add: call_step_def unlock_def)
      have "j \<in> set (m_waitQueue ?m)"
        using Cons by simp
      then have j: "j < length ?pcs" "?pcs ! j = Queued"
        using m by (simp_all add: mutex_inv_def)
      with BodyDone have ji: "j \<noteq> i" by auto
      have "int (length (filter ran (?pcs[i := Done, j := Locked])))
          = int (length (filter ran (?pcs[i := Done])))"
        using j ji by (simp add: count_update ran_def)
      also have "\<dots> = int (length (filter ran ?pcs))"
        using i BodyDone by (simp add: count_update ran_def)
      finally have b: "bodies_run (call_step i s) = bodies_run s"
        by (simp add: step bodies_run_def)
      have f: "c_threw (call_step i s) = c_threw s"
        "c_coord (call_step i s) = (c_coord s)\<lparr>cc_mutex := ?m\<lparr>m_waitQueue := rest\<rparr>\<rparr>"
        "c_pcs (call_step i s) = ?pcs[i := Done, j := Locked]"
        by (simp_all add: step)
      have "mutex_inv (?m\<lparr>m_waitQueue := rest\<rparr>) (c_pcs (call_step i s))"
        unfolding f(3) by (rule mutex_inv_handover [OF m i BodyDone Cons])
      from conc_inv_same_data [OF d b f(1) f(2) this] show ?thesis .
    qed
  qed
qed

lemma conc_inv_run: "conc_inv N s \<Longrightarrow> conc_inv N (run_schedule sched s)"
  by (induction sched arbitrary: s) (simp_all add: conc_inv_step)


lemma length_call_step: "length (c_pcs (call_step i s)) = length (c_pcs s)"
  by (auto simp add: call_step_def lock_def unlock_def
      split: pc.splits option.splits sum.splits prod.splits)

lemma length_run_schedule: "length (c_pcs (run_schedule sched s)) = length (c_pcs s)"
  by (induction sched arbitrary: s) (simp_all add: length_call_step)

lemma call_step_enabled:
  assumes "i < length (c_pcs s)" and "c_pcs s ! i \<noteq> Queued" and "c_pcs s ! i \<noteq> Done"
  shows "call_step i s \<noteq> s"
proof -
  have upd: "(c_pcs s)[i := Done, j := Locked] ! i \<noteq> BodyDone" for j
    using assms(1) by (cases "j = i") simp_all
  have "c_pcs (call_step i s) ! i \<noteq> c_pcs s ! i"
  proof (cases "c_pcs s ! i")
    case Start
    with assms(1) show ?thesis
      by (simp add: call_step_def lock_def)
  next
    case Locked
    with assms(1) show ?thesis
      by (simp add: call_step_def)
  next
    case BodyDone
    with assms(1) upd show ?thesis
      by (simp add: call_step_def unlock_def)
  qed (use assms in simp_all)
  then show ?thesis by auto
qed

lemma conc_inv_progress:
  assumes inv: "conc_inv N s"
  shows "(\<exists>i < length (c_pcs s). call_step i s \<noteq> s) \<or>
         c_pcs s = replicate (length (c_pcs s)) Done"
proof (cases "\<exists>i < length (c_pcs s). c_pcs s ! i \<noteq> Queued \<and> c_pcs s ! i \<noteq> Done")
  case True
  then show ?thesis
    using call_step_enabled by blast
next
  case False
  then have qd: "\<And>i. i < length (c_pcs s) \<Longrightarrow> c_pcs s ! i = Queued \<or> c_pcs s ! i = Done"
    by blast
  from inv have m: "mutex_inv (cc_mutex (c_coord s)) (c_pcs s)"
    by (simp add: conc_inv_def)
  have noh: "\<not> m_locked (cc_mutex (c_coord s))"
  proof
    assume "m_locked (cc_mutex (c_coord s))"
    with m obtain k where "k < length (c_pcs s)" "holder (c_pcs s ! k)"
      by (auto simp add: mutex_inv_def)
    with qd [of k] show False
      by (auto simp add: holder_def)
  qed
  with m have "m_waitQueue (cc_mutex (c_coord s)) = []"
    by (auto simp add: mutex_inv_def)
  with m have "\<And>i. i < length (c_pcs s) \<Longrightarrow> c_pcs s ! i \<noteq> Queued"
    by (auto simp add: mutex_inv_def)
  with qd have "\<And>i. i < length (c_pcs s) \<Longrightarrow> c_pcs s ! i = Done"
    by blast
  then have "c_pcs s = replicate (length (c_pcs s)) Done"
    by (intro nth_equalityI) simp_all
  then show ?thesis by blast
qed

text \<open>
  Claim C3, as the code has it.  After \<open>k\<close> calls of \<open>taskCompleted()\<close> on a
  coordinator created with \<open>totalTasks = N\<close>, every call has returned,
  \<open>remainingTasks\<close> is \<open>N - k\<close>, and \<open>completed\<close> is true exactly when
  \<open>k \<ge> max 1 N\<close>: the flag goes from false to true once, on call number \<open>max 1 N\<close>
  (the \<open>N\<close>-th call when \<open>N \<ge> 1\<close>, the first call when \<open>N \<le> 0\<close>).  The
  semaphore \<open>semDone\<close> holds no signal before that call and exactly one from then on,
  however many calls follow.  The same holds when \<open>n\<close> calls overlap, under every
  schedule of their pieces, with \<open>k\<close> the number of calls whose body has run: no
  \<open>unlock()\<close> throws, and as long as a call has not ended some call can go on.
\<close>

theorem taskCompleted_signals_once:
  "(\<exists>c. taskCompleted_calls k (CompletionCoordinator_new N) = Returned c \<and>
      remainingTasks c = N - int k \<and>
      completed c = (max 1 N \<le> int k) \<and>
      semDone c = \<lparr>s_count = (if max 1 N \<le> int k then 1 else 0), s_waitQueue = []\<rparr>) \<and>
   (\<exists>s. run_schedule sched (conc_init N n) = s \<and>
      \<not> c_threw s \<and>
      remainingTasks (c_coord s) = N - bodies_run s \<and>
      completed (c_coord s) = (max 1 N \<le> bodies_run s) \<and>
      semDone (c_coord s)
        = \<lparr>s_count = (if max 1 N \<le> bodies_run s then 1 else 0), s_waitQueue = []\<rparr> \<and>
      ((\<exists>i < n. call_step i s \<noteq> s) \<or> c_pcs s = replicate n Done))"
proof -
  let ?s = "run_schedule sched (conc_init N n)"
  have inv: "conc_inv N ?s"
    by (rule conc_inv_run [OF conc_inv_init])
  have len: "length (c_pcs ?s) = n"
    by (simp add: length_run_schedule conc_init_def)
  have "(\<exists>i < n. call_step i ?s \<noteq> ?s) \<or> c_pcs ?s = replicate n Done"
    using conc_inv_progress [OF inv] by (simp only: len)
  moreover have "\<not> c_threw ?s \<and>
      remainingTasks (c_coord ?s) = N - bodies_run ?s \<and>
      completed (c_coord ?s) = (max 1 N \<le> bodies_run ?s) \<and>
      semDone (c_coord ?s)
        = \<lparr>s_count = (if max 1 N \<le> bodies_run ?s then 1 else 0), s_waitQueue = []\<rparr>"
    using inv by (simp only: conc_inv_def data_inv_def simp_thms)
  ultimately show ?thesis
    using taskCompleted_calls_state [of k N] by blast
qed

text \<open>Three overlapping calls on a coordinator created for two tasks, run to their end.\<close>

lemma interleaved_example:
  "run_schedule [0, 1, 2, 0, 1, 2, 0, 1, 2, 1, 1, 2, 2] (conc_init 2 3)
     = \<lparr>c_coord = \<lparr>cc_mutex = \<lparr>m_locked = False, m_waitQueue = []\<rparr>,
          semDone = \<lparr>s_count = 1, s_waitQueue = []\<rparr>, remainingTasks = - 1,
          completed = True\<rparr>,
        c_pcs = [Done, Done, Done], c_threw = False\<rparr>"
  by code_simp

text \<open>
  Claim C3 as stated fails at \<open>N = 0\<close>: after \<open>N = 0\<close> calls the flag is still
  false, and it becomes true on call number 1.
\<close>

theorem taskCompleted_zero_total_counterexample:
  "taskCompleted_calls 0 (CompletionCoordinator_new 0)
     = Returned \<lparr>cc_mutex = Mutex_new, semDone = \<lparr>s_count = 0, s_waitQueue = []\<rparr>,
         remainingTasks = 0, completed = False\<rparr> \<and>
   taskCompleted_calls 1 (CompletionCoordinator_new 0)
     = Returned \<lparr>cc_mutex = Mutex_new, semDone = \<lparr>s_count = 1, s_waitQueue = []\<rparr>,
         remainingTasks = - 1, completed = True\<rparr>"
  by (simp add: CompletionCoordinator_new_def Semaphore_new_def taskCompleted_free
      taskCompleted_body_def Let_def signal_def)

text \<open>
  A waiter queued on \<open>semDone\<close> with no signal stored stays at the head of the queue
  through every operation other than \<open>taskCompleted()\<close>.
\<close>

lemma coord_step_waiting_first:
  assumes "waiting_first resolve c"
  shows "\<exists>c'. coord_step x c = Returned c' \<and> waiting_first resolve c'"
proof (cases x)
  case (WaitForCompletion r)
  with assms show ?thesis
    by (simp add: waiting_first_def waitForCompletion_def sem_wait_def)
next
  case (SetTotalTasks n)
  with assms show ?thesis
    by (simp add: waiting_first_def setTotalTasks_def withLock_free unlock_def Mutex_new_def)
next
  case GetRemainingTasks
  with assms show ?thesis
    by (simp add: waiting_first_def getRemainingTasks_def withLock_free unlock_def
        Mutex_new_def)
next
  case IsCompleted
  with assms show ?thesis
    by (simp add: waiting_first_def isCompleted_def withLock_free unlock_def Mutex_new_def)
qed

lemma coord_steps_waiting_first:
  "waiting_first resolve c \<Longrightarrow>
   \<exists>c'. coord_steps ops c = Returned c' \<and> waiting_first resolve c'"
proof (induction ops arbitrary: c)
  case Nil
  then show ?case by simp
next
  case (Cons x xs)
  from coord_step_waiting_first [OF Cons.prems, of x]
  obtain c1 where c1: "coord_step x c = Returned c1" "waiting_first resolve c1"
    by blast
  from Cons.IH [OF c1(2)] c1(1) show ?case by simp
qed

lemma waitForCompletion_new_0:
  "waitForCompletion (CompletionCoordinator_new 0) resolve =
     (False, \<lparr>cc_mutex = Mutex_new, semDone = \<lparr>s_count = 0, s_waitQueue = [resolve]\<rparr>,
        remainingTasks = 0, completed = False\<rparr>)"
  by (simp add: waitForCompletion_def CompletionCoordinator_new_def Semaphore_new_def
      sem_wait_def)

text \<open>
  Claim C6.  A coordinator created with \<open>totalTasks = 0\<close> starts with
  \<open>remainingTasks = 0\<close>, \<open>completed = false\<close> and no signal in \<open>semDone\<close>.  A
  \<open>waitForCompletion()\<close> called first is suspended, and stays suspended (at the head of
  the queue, no signal stored) through every run of the other operations that has no
  \<open>taskCompleted()\<close> in it.  The first \<open>taskCompleted()\<close> signals: called on the fresh
  coordinator it sets the flag and stores one signal, and called after the suspended wait
  it sets the flag and takes the waiter off the queue.
\<close>

theorem zero_tasks_signals_on_first_call:
  "remainingTasks (CompletionCoordinator_new 0) = 0 \<and>
   completed (CompletionCoordinator_new 0) = False \<and>
   semDone (CompletionCoordinator_new 0) = \<lparr>s_count = 0, s_waitQueue = []\<rparr> \<and>
   fst (waitForCompletion (CompletionCoordinator_new 0) resolve) = False \<and>
   (\<exists>c. coord_steps ops (snd (waitForCompletion (CompletionCoordinator_new 0) resolve))
           = Returned c \<and>
        s_count (semDone c) = 0 \<and> s_waitQueue (semDone c) \<noteq> [] \<and>
        hd (s_waitQueue (semDone c)) = resolve) \<and>
   taskCompleted (CompletionCoordinator_new 0)
     = Returned \<lparr>cc_mutex = Mutex_new, semDone = \<lparr>s_count = 1, s_waitQueue = []\<rparr>,
         remainingTasks = - 1, completed = True\<rparr> \<and>
   taskCompleted (snd (waitForCompletion (CompletionCoordinator_new 0) resolve))
     = Returned \<lparr>cc_mutex = Mutex_new, semDone = \<lparr>s_count = 0, s_waitQueue = []\<rparr>,
         remainingTasks = - 1, completed = True\<rparr>"
proof -
  let ?c1 = "snd (waitForCompletion (CompletionCoordinator_new 0) resolve)"
  have w: "waiting_first resolve ?c1"
    by (simp add: waitForCompletion_new_0 waiting_first_def)
  from coord_steps_waiting_first [OF w, of ops]
  have steps: "\<exists>c. coord_steps ops ?c1 = Returned c \<and>
        s_count (semDone c) = 0 \<and> s_waitQueue (semDone c) \<noteq> [] \<and>
        hd (s_waitQueue (semDone c)) = resolve"
    by (auto simp add: waiting_first_def)
  have fresh: "taskCompleted (CompletionCoordinator_new 0)
     = Returned \<lparr>cc_mutex = Mutex_new, semDone = \<lparr>s_count = 1, s_waitQueue = []\<rparr>,
         remainingTasks = - 1, completed = True\<rparr>"
    by (simp add: CompletionCoordinator_new_def Semaphore_new_def taskCompleted_free
        taskCompleted_body_def Let_def signal_def)
  have after: "taskCompleted ?c1
     = Returned \<lparr>cc_mutex = Mutex_new, semDone = \<lparr>s_count = 0, s_waitQueue = []\<rparr>,
         remainingTasks = - 1, completed = True\<rparr>"
    by (simp add: waitForCompletion_new_0 taskCompleted_free taskCompleted_body_def
        Let_def signal_def)
  have init: "remainingTasks (CompletionCoordinator_new 0) = 0 \<and>
      completed (CompletionCoordinator_new 0) = False \<and>
      semDone (CompletionCoordinator_new 0) = \<lparr>s_count = 0, s_waitQueue = []\<rparr>"
    by (simp add: CompletionCoordinator_new_def Semaphore_new_def)
  have blocked: "fst (waitForCompletion (CompletionCoordinator_new 0) resolve) = False"
    by (simp add: waitForCompletion_new_0)
  show ?thesis
    using init blocked steps fresh after by blast
qed

section \<open>Properties of the partition\<close>

text \<open>\<open>ceil_div\<close> is the ceiling of the quotient of the reals.\<close>

lemma ceil_div_real: "ceil_div a b = \<lceil>real_of_int a / real_of_int b\<rceil>"
  unfolding ceil_div_def ceiling_def
  by (metis floor_divide_of_int_eq minus_divide_left of_int_minus)

text \<open>The loop appends, in order, the task of every index whose first row is below the height.\<close>

lemma createTasks_loop_eq:
  "createTasks_loop H W L i acc =
     acc @ map (mk_task H L) (filter (\<lambda>k. k * L < H) [i..W - 1])"
proof (induction H W L i acc rule: createTasks_loop.induct)
  case (1 H W L i acc)
  show ?case
  proof (cases "i < W")
    case True
    then have u: "[i..W - 1] = i # [i + 1..W - 1]"
      by (simp add: upto_rec1)
    show ?thesis
      using True "1.IH" [OF True refl refl]
      by (subst createTasks_loop.simps) (simp add: u Let_def mk_task_def)
  next
    case False
    then show ?thesis
      by (subst createTasks_loop.simps) simp
  qed
qed

lemma div_bounds:
  fixes a b :: int
  assumes "0 < b"
  shows "a div b * b \<le> a" and "a < (a div b + 1) * b"
proof -
  have e: "a = a div b * b + a mod b" by simp
  have m: "0 \<le> a mod b" "a mod b < b"
    using assms by simp_all
  from e m(1) show "a div b * b \<le> a" by linarith
  have "(a div b + 1) * b = a div b * b + b"
    by (simp add: algebra_simps)
  with e m(2) show "a < (a div b + 1) * b" by linarith
qed

lemma ceil_div_pos:
  assumes "1 \<le> H" "1 \<le> W"
  shows "1 \<le> ceil_div H W" and "H \<le> ceil_div H W * W"
proof -
  have W: "0 < W" using assms(2) by simp
  have "(- H) div W < 0"
    using assms W by (simp add: pos_imp_zdiv_neg_iff)
  then show "1 \<le> ceil_div H W"
    by (simp add: ceil_div_def)
  have "(- H) div W * W \<le> - H"
    using div_bounds(1) [OF W] .
  then show "H \<le> ceil_div H W * W"
    by (simp add: ceil_div_def)
qed

lemma createTasks_eq: "createTasks H W = map (mk_task H (ceil_div H W)) (starts H W (ceil_div H W))"
  by (simp add: createTasks_def createTasks_loop_eq starts_def)

lemma rows_mk_task: "rows (mk_task H L k) = {k * L ..< min ((k + 1) * L) H}"
  by (simp add: rows_def mk_task_def)

lemma starts_sorted: "sorted_wrt (<) (starts H W L)"
  unfolding starts_def
  by (intro sorted_wrt_filter) (simp add: strict_sorted_iff)

lemma union_rows:
  assumes "1 \<le> L" "H \<le> L * W"
  shows "(\<Union>k \<in> set (starts H W L). rows (mk_task H L k)) = {0..<H}"
proof (intro set_eqI iffI)
  fix x
  assume "x \<in> (\<Union>k \<in> set (starts H W L). rows (mk_task H L k))"
  then obtain k where k: "0 \<le> k" "k * L < H" "k * L \<le> x" "x < H"
    by (auto simp add: starts_def rows_mk_task)
  have "0 \<le> k * L" using k(1) assms(1) by simp
  with k show "x \<in> {0..<H}" by simp
next
  fix x
  assume "x \<in> {0..<H}"
  then have x: "0 \<le> x" "x < H" by simp_all
  define k where "k = x div L"
  have L: "0 < L" using assms(1) by simp
  have k1: "k * L \<le> x"
    unfolding k_def using div_bounds(1) [OF L] .
  have k2: "x < (k + 1) * L"
    unfolding k_def using div_bounds(2) [OF L] .
  have k0: "0 \<le> k"
    unfolding k_def using x(1) L by (simp add: pos_imp_zdiv_nonneg_iff)
  have "k * L < W * L"
    using k1 x(2) assms(2) by (simp add: mult.commute)
  then have kW: "k < W"
    using L by simp
  have "k \<in> set (starts H W L)"
    using k0 kW k1 x(2) by (simp add: starts_def)
  moreover have "x \<in> rows (mk_task H L k)"
    using k1 k2 x(2) by (simp add: rows_mk_task)
  ultimately show "x \<in> (\<Union>k \<in> set (starts H W L). rows (mk_task H L k))"
    by blast
qed

lemma disjoint_rows:
  assumes "1 \<le> L" "k < k'"
  shows "rows (mk_task H L k) \<inter> rows (mk_task H L k') = {}"
proof -
  have "k + 1 \<le> k'" using assms(2) by simp
  then have "(k + 1) * L \<le> k' * L"
    using assms(1) by (simp add: mult_right_mono)
  then show ?thesis
    by (auto simp add: rows_mk_task)
qed

text \<open>
  Claim C2.  For a height \<open>H \<ge> 1\<close> and \<open>W \<ge> 1\<close> workers, the row ranges of the
  tasks \<open>createTasks\<close> returns cover exactly the rows \<open>0 \<le> r < H\<close>, and two tasks
  at different positions of the list have no row in common.
\<close>

theorem createTasks_partition:
  assumes "1 \<le> H" "1 \<le> W"
  shows "(\<Union>t \<in> set (createTasks H W). rows t) = {0..<H} \<and>
         (\<forall>i j. i < j \<and> j < length (createTasks H W) \<longrightarrow>
            rows (createTasks H W ! i) \<inter> rows (createTasks H W ! j) = {})"
proof -
  let ?L = "ceil_div H W"
  have L: "1 \<le> ?L" "H \<le> ?L * W"
    using ceil_div_pos [OF assms] by simp_all
  have "(\<Union>t \<in> set (createTasks H W). rows t) = {0..<H}"
    using union_rows [of ?L H W] L by (simp add: createTasks_eq mult.commute)
  moreover have "rows (createTasks H W ! i) \<inter> rows (createTasks H W ! j) = {}"
    if "i < j" "j < length (createTasks H W)" for i j
  proof -
    have len: "j < length (starts H W ?L)" "i < length (starts H W ?L)"
      using that by (simp_all add: createTasks_eq)
    have "starts H W ?L ! i < starts H W ?L ! j"
      using sorted_wrt_nth_less [OF starts_sorted that(1) len(1)] .
    then show ?thesis
      using len L(1) by (simp add: createTasks_eq disjoint_rows)
  qed
  ultimately show ?thesis by blast
qed

theorem createTasks_partition_witness:
  "(1::int) \<le> 10 \<and> (1::int) \<le> 4 \<and>
   createTasks 10 4 = [\<lparr>row_start = 0, row_end = 3\<rparr>, \<lparr>row_start = 3, row_end = 6\<rparr>,
      \<lparr>row_start = 6, row_end = 9\<rparr>, \<lparr>row_start = 9, row_end = 10\<rparr>] \<and>
   (\<Union>t \<in> set (createTasks 10 4). rows t) = {0..<10} \<and>
   (0::nat) < 1 \<and> 1 < length (createTasks 10 4) \<and>
   rows (createTasks 10 4 ! 0) \<inter> rows (createTasks 10 4 ! 1) = {}"
proof -
  have h: "(1::int) \<le> 10" "(1::int) \<le> 4" by simp_all
  have ct: "createTasks 10 4 = [\<lparr>row_start = 0, row_end = 3\<rparr>, \<lparr>row_start = 3, row_end = 6\<rparr>,
      \<lparr>row_start = 6, row_end = 9\<rparr>, \<lparr>row_start = 9, row_end = 10\<rparr>]"
    by (simp add: createTasks_def ceil_div_def createTasks_loop.simps)
  have len: "(0::nat) < 1 \<and> 1 < length (createTasks 10 4)"
    by (simp add: ct)
  from createTasks_partition [OF h] len
  have "(\<Union>t \<in> set (createTasks 10 4). rows t) = {0..<10}"
    and "rows (createTasks 10 4 ! 0) \<inter> rows (createTasks 10 4 ! 1) = {}"
    by blast+
  with h ct len show ?thesis by blast
qed

section \<open>Properties of the block transforms\<close>

text \<open>Each loop of the sources is the generic loop at its own pixel function.\<close>

lemma applyNegativeBlock_loop_eq:
  "applyNegativeBlock_loop h inp out maxValue i e =
     pixel_loop (negative_pixel maxValue) h inp out i e"
proof (induction h inp out maxValue i e rule: applyNegativeBlock_loop.induct)
  case (1 h inp out maxValue i e)
  show ?case
  proof (cases "i < e")
    case True
    let ?v = "negative_pixel maxValue (getIndex h inp i)"
    have v: "toUint8 (case getIndex h inp i of None \<Rightarrow> None
               | Some z \<Rightarrow> Some (maxValue + 1 - 1 - uint z)) = ?v"
      by (simp only: negative_pixel_def)
    have "applyNegativeBlock_loop h inp out maxValue i e =
        applyNegativeBlock_loop (setIndex h out i ?v) inp out maxValue (i + 1) e"
      using True by (subst applyNegativeBlock_loop.simps) (simp only: Let_def v if_True)
    also have "\<dots> = pixel_loop (negative_pixel maxValue) (setIndex h out i ?v) inp out (i + 1) e"
      using "1.IH" [OF True refl refl refl] by (simp only: v)
    also have "\<dots> = pixel_loop (negative_pixel maxValue) h inp out i e"
      using True by (subst (2) pixel_loop.simps) (simp only: if_True)
    finally show ?thesis .
  next
    case False
    then show ?thesis
      by (subst applyNegativeBlock_loop.simps, subst pixel_loop.simps) simp
  qed
qed

lemma applySliceBlock_loop_eq:
  "applySliceBlock_loop h inp out a b i e = pixel_loop (slice_pixel a b) h inp out i e"
proof (induction h inp out a b i e rule: applySliceBlock_loop.induct)
  case (1 h inp out a b i e)
  show ?case
  proof (cases "i < e")
    case True
    let ?c = "case getIndex h inp i of None \<Rightarrow> False | Some v \<Rightarrow> uint v \<le> a \<or> uint v \<ge> b"
    let ?v = "slice_pixel a b (getIndex h inp i)"
    have v: "(if ?c then setIndex h out i 0 else setIndex h out i 255) = setIndex h out i ?v"
      by (simp add: slice_pixel_def)
    have "applySliceBlock_loop h inp out a b i e =
        applySliceBlock_loop (setIndex h out i ?v) inp out a b (i + 1) e"
      using True by (subst applySliceBlock_loop.simps) (simp only: Let_def v if_True)
    also have "\<dots> = pixel_loop (slice_pixel a b) (setIndex h out i ?v) inp out (i + 1) e"
      using "1.IH" [OF True refl refl] by (simp only: v)
    also have "\<dots> = pixel_loop (slice_pixel a b) h inp out i e"
      using True by (subst (2) pixel_loop.simps) (simp only: if_True)
    finally show ?thesis .
  next
    case False
    then show ?thesis
      by (subst applySliceBlock_loop.simps, subst pixel_loop.simps) simp
  qed
qed

lemma applySliceBlock_copy_loop_eq:
  "applySliceBlock_copy_loop h inp out a b i e =
     pixel_loop (slice_copy_pixel a b) h inp out i e"
proof (induction h inp out a b i e rule: applySliceBlock_copy_loop.induct)
  case (1 h inp out a b i e)
  show ?case
  proof (cases "i < e")
    case True
    let ?c = "case getIndex h inp i of None \<Rightarrow> False | Some v \<Rightarrow> uint v \<le> a \<or> uint v \<ge> b"
    let ?v = "slice_copy_pixel a b (getIndex h inp i)"
    have v: "(if ?c then setIndex h out i 255
              else setIndex h out i (toUint8 (map_option uint (getIndex h inp i))))
             = setIndex h out i ?v"
      by (simp add: slice_copy_pixel_def)
    have "applySliceBlock_copy_loop h inp out a b i e =
        applySliceBlock_copy_loop (setIndex h out i ?v) inp out a b (i + 1) e"
      using True by (subst applySliceBlock_copy_loop.simps) (simp only: Let_def v if_True)
    also have "\<dots> = pixel_loop (slice_copy_pixel a b) (setIndex h out i ?v) inp out (i + 1) e"
      using "1.IH" [OF True refl] by (simp only: v)
    also have "\<dots> = pixel_loop (slice_copy_pixel a b) h inp out i e"
      using True by (subst (2) pixel_loop.simps) (simp only: if_True)
    finally show ?thesis .
  next
    case False
    then show ?thesis
      by (subst applySliceBlock_copy_loop.simps, subst pixel_loop.simps) simp
  qed
qed


lemma length_setIndex: "length (setIndex h a i v b) = length (h b)"
  by (simp add: setIndex_def)

lemma getIndex_setIndex:
  "getIndex (setIndex h a i v) b j =
     (if b = a \<and> j = i \<and> 0 \<le> i \<and> i < int (length (h a)) then Some v else getIndex h b j)"
  by (auto simp add: getIndex_def setIndex_def)


lemma length_pixel_loop: "length (pixel_loop f h inp out i e b) = length (h b)"
proof (induction f h inp out i e rule: pixel_loop.induct)
  case (1 f h inp out i e)
  show ?case
  proof (cases "i < e")
    case True
    with "1.IH" [OF True] show ?thesis
      by (subst pixel_loop.simps) (simp add: length_setIndex)
  next
    case False
    then show ?thesis by (subst pixel_loop.simps) simp
  qed
qed

lemma pixel_loop_outside:
  "j < i \<or> e \<le> j \<Longrightarrow> getIndex (pixel_loop f h inp out i e) b j = getIndex h b j"
proof (induction f h inp out i e rule: pixel_loop.induct)
  case (1 f h inp out i e)
  show ?case
  proof (cases "i < e")
    case True
    from "1.prems" True have "j < i + 1 \<or> e \<le> j" "j \<noteq> i" by auto
    with "1.IH" [OF True] True show ?thesis
      by (subst pixel_loop.simps) (simp add: getIndex_setIndex)
  next
    case False
    then show ?thesis by (subst pixel_loop.simps) simp
  qed
qed

lemma pixel_loop_inside:
  "i \<le> j \<Longrightarrow> j < e \<Longrightarrow> 0 \<le> j \<Longrightarrow> j < int (length (h out)) \<Longrightarrow>
   getIndex (pixel_loop f h inp out i e) out j = Some (f (getIndex h inp j))"
proof (induction f h inp out i e rule: pixel_loop.induct)
  case (1 f h inp out i e)
  from "1.prems" have ie: "i < e" by simp
  let ?h1 = "setIndex h out i (f (getIndex h inp i))"
  have unfold: "pixel_loop f h inp out i e = pixel_loop f ?h1 inp out (i + 1) e"
    using ie by (subst pixel_loop.simps) simp
  show ?case
  proof (cases "j = i")
    case True
    have "getIndex (pixel_loop f ?h1 inp out (i + 1) e) out j = getIndex ?h1 out j"
      using True by (intro pixel_loop_outside) simp
    also have "\<dots> = Some (f (getIndex h inp j))"
      using True "1.prems" by (simp add: getIndex_setIndex)
    finally show ?thesis by (simp add: unfold)
  next
    case False
    with "1.prems" have "i + 1 \<le> j" by simp
    from "1.IH" [OF ie this "1.prems"(2,3)] "1.prems"(4)
    have "getIndex (pixel_loop f ?h1 inp out (i + 1) e) out j = Some (f (getIndex ?h1 inp j))"
      by (simp add: length_setIndex)
    also have "getIndex ?h1 inp j = getIndex h inp j"
      using False by (simp add: getIndex_setIndex)
    finally show ?thesis by (simp add: unfold)
  qed
qed

lemma getIndex_nth: "\<lbrakk>0 \<le> j; j < int (length (h a))\<rbrakk> \<Longrightarrow> getIndex h a j = Some (h a ! nat j)"
  by (simp add: getIndex_def)

lemma negative_pixel_255: "negative_pixel 255 (Some z) = 255 - z"
  by (simp add: negative_pixel_def toUint8_def)

lemma negative_twice: "negative_pixel 255 (Some (negative_pixel 255 (Some z))) = z"
  by (simp add: negative_pixel_255)

lemma applyNegativeBlock_eq:
  "applyNegativeBlock h inp out width rowStart rowEnd maxValue =
     (pixel_loop (negative_pixel maxValue) h inp out (rowStart * width) (rowEnd * width),
      rowEnd * width - rowStart * width)"
  by (simp add: applyNegativeBlock_def applyNegativeBlock_loop_eq Let_def)

lemma applySliceBlock_eq:
  "applySliceBlock h inp out width rowStart rowEnd a b =
     (pixel_loop (slice_pixel a b) h inp out (rowStart * width) (rowEnd * width),
      rowEnd * width - rowStart * width)"
  by (simp add: applySliceBlock_def applySliceBlock_loop_eq Let_def)

lemma applySliceBlock_copy_eq:
  "applySliceBlock_copy h inp out width rowStart rowEnd a b =
     (pixel_loop (slice_copy_pixel a b) h inp out (rowStart * width) (rowEnd * width),
      rowEnd * width - rowStart * width)"
  by (simp add: applySliceBlock_copy_def applySliceBlock_copy_loop_eq Let_def)


text \<open>The facts that evaluate the transforms on the example store.\<close>

lemmas eval_filters =
  applyNegativeBlock_def applyNegativeBlock_loop.simps applySliceBlock_def
  applySliceBlock_loop.simps getIndex_def setIndex_def toUint8_def Let_def heap0_def

text \<open>
  Claim C9.  With \<open>maxValue = 255\<close>, the negative transform from array \<open>a\<close> to
  array \<open>b\<close> followed by the negative transform from \<open>b\<close> to \<open>c\<close>, over the same
  rows, leaves in \<open>c\<close>, at every index of the row range that the three arrays have, the
  byte that \<open>a\<close> held there at the start.
\<close>

theorem negative_twice_restores:
  assumes "rowStart * width \<le> int i" and "int i < rowEnd * width"
    and "i < length (h a)" and "i < length (h b)" and "i < length (h c)"
  shows "fst (applyNegativeBlock (fst (applyNegativeBlock h a b width rowStart rowEnd 255))
                b c width rowStart rowEnd 255) c ! i = h a ! i"
proof -
  let ?s = "rowStart * width" and ?e = "rowEnd * width"
  let ?h1 = "pixel_loop (negative_pixel 255) h a b ?s ?e"
  let ?h2 = "pixel_loop (negative_pixel 255) ?h1 b c ?s ?e"
  have 1: "getIndex ?h1 b (int i) = Some (negative_pixel 255 (getIndex h a (int i)))"
    using assms by (intro pixel_loop_inside) simp_all
  have "getIndex ?h2 c (int i) = Some (negative_pixel 255 (getIndex ?h1 b (int i)))"
    using assms by (intro pixel_loop_inside) (simp_all add: length_pixel_loop)
  also have "\<dots> = Some (negative_pixel 255 (Some (negative_pixel 255 (Some (h a ! i)))))"
    using assms(3) by (simp only: 1) (simp add: getIndex_def)
  also have "\<dots> = Some (h a ! i)"
    by (simp only: negative_twice)
  finally have "getIndex ?h2 c (int i) = Some (h a ! i)" .
  then have "?h2 c ! i = h a ! i"
    using assms(5) by (simp add: getIndex_def length_pixel_loop)
  then show ?thesis
    by (simp add: applyNegativeBlock_eq)
qed

theorem negative_twice_restores_witness:
  "0 * 2 \<le> int 1 \<and> int 1 < 1 * 2 \<and>
   1 < length (heap0 0) \<and> 1 < length (heap0 1) \<and> 1 < length (heap0 2) \<and>
   fst (applyNegativeBlock heap0 0 1 2 0 1 255) 1 = [245, 180, 3, 4] \<and>
   fst (applyNegativeBlock (fst (applyNegativeBlock heap0 0 1 2 0 1 255)) 1 2 2 0 1 255) 2 ! 1
     = 75"
proof -
  have pre: "0 * 2 \<le> int 1" "int 1 < 1 * 2"
    "1 < length (heap0 0)" "1 < length (heap0 1)" "1 < length (heap0 2)"
    by (simp_all add: heap0_def)
  have first: "fst (applyNegativeBlock heap0 0 1 2 0 1 255) 1 = [245, 180, 3, 4]"
    by (simp add: eval_filters)
  have "fst (applyNegativeBlock (fst (applyNegativeBlock heap0 0 1 2 0 1 255)) 1 2 2 0 1 255) 2 ! 1
      = heap0 0 ! 1"
    using negative_twice_restores [OF pre] .
  also have "\<dots> = 75"
    by (simp add: heap0_def)
  finally show ?thesis
    using pre first by blast
qed




text \<open>
  What the two copies of the slice transform write at an index of the row range: the one
  of filters.js 0 outside the band and 255 inside, the other 255 outside the band and the
  pixel inside.
\<close>

lemma applySliceBlock_pixels:
  assumes "rowStart * width \<le> int i" and "int i < rowEnd * width"
    and "i < length (h a)" and "i < length (h b)"
  shows "fst (applySliceBlock h a b width rowStart rowEnd 50 100) b ! i =
           (if uint (h a ! i) \<le> 50 \<or> uint (h a ! i) \<ge> 100 then 0 else 255)"
proof -
  let ?h1 = "pixel_loop (slice_pixel 50 100) h a b (rowStart * width) (rowEnd * width)"
  have "getIndex ?h1 b (int i) = Some (slice_pixel 50 100 (getIndex h a (int i)))"
    using assms by (intro pixel_loop_inside) simp_all
  then have "?h1 b ! i = slice_pixel 50 100 (Some (h a ! i))"
    using assms(3,4) by (simp add: getIndex_def length_pixel_loop)
  then show ?thesis
    by (simp add: applySliceBlock_eq slice_pixel_def)
qed

lemma applySliceBlock_copy_pixels:
  assumes "rowStart * width \<le> int i" and "int i < rowEnd * width"
    and "i < length (h a)" and "i < length (h b)"
  shows "fst (applySliceBlock_copy h a b width rowStart rowEnd 50 100) b ! i =
           (if uint (h a ! i) \<le> 50 \<or> uint (h a ! i) \<ge> 100 then 255 else h a ! i)"
proof -
  let ?h1 = "pixel_loop (slice_copy_pixel 50 100) h a b (rowStart * width) (rowEnd * width)"
  have "getIndex ?h1 b (int i) = Some (slice_copy_pixel 50 100 (getIndex h a (int i)))"
    using assms by (intro pixel_loop_inside) simp_all
  then have "?h1 b ! i = slice_copy_pixel 50 100 (Some (h a ! i))"
    using assms(3,4) by (simp add: getIndex_def length_pixel_loop)
  then show ?thesis
    by (simp add: applySliceBlock_copy_eq slice_copy_pixel_def toUint8_def)
qed


text \<open>
  Claim C1, on the code.  On the pixels 10, 75, 150, 200 with \<open>low = 50\<close> and
  \<open>high = 100\<close>, \<open>applySliceBlock\<close> of filters.js writes 0, 255, 0, 0: it writes 0
  where the claim has 255 and 255 where the claim has the input byte.
\<close>

theorem applySliceBlock_writes_0_and_255:
  "heap0 0 = [10, 75, 150, 200] \<and>
   applySliceBlock heap0 0 1 4 0 1 50 100 = (heap0(1 := [0, 255, 0, 0]), 4)"
  by (simp add: eval_filters)

section \<open>Properties of the header\<close>

text \<open>The four bytes written for a 32-bit signed integer, read back, give the integer.\<close>

lemma sint_byte:
  fixes q :: int
  assumes "0 \<le> q" "q < 256"
  shows "sint (word_of_int q :: u8) = (if q < 128 then q else q - 256)"
proof -
  have t: "take_bit 8 q = q"
    using assms by (simp add: take_bit_int_eq_self)
  have b: "bit q 7 \<longleftrightarrow> 128 \<le> q"
  proof -
    have "q div 128 = 0 \<or> q div 128 = 1"
      using assms by auto
    moreover have "q div 128 = 0 \<longleftrightarrow> q < 128"
      using assms by auto
    ultimately show ?thesis
      by (auto simp add: bit_iff_odd)
  qed
  have "sint (word_of_int q :: u8) = signed_take_bit 7 q"
    by (simp add: sint_sbintrunc')
  also have "\<dots> = take_bit 8 q - 2 ^ 8 * of_bool (bit q 7)"
    using signed_take_bit_eq_take_bit_minus [of 7 q] by simp
  finally show ?thesis
    by (simp add: t b)
qed


lemma bytes_sum:
  fixes u :: int
  shows "u mod 256 + (u div 256 mod 256) * 256 + (u div 65536 mod 256) * 65536
         + (u div 16777216) * 16777216 = u"
proof -
  have 1: "u = u div 256 * 256 + u mod 256" by simp
  have 2: "u div 256 = u div 256 div 256 * 256 + u div 256 mod 256" by simp
  have 3: "u div 256 div 256 = u div 256 div 256 div 256 * 256 + u div 256 div 256 mod 256" by simp
  have d2: "u div 256 div 256 = u div 65536" by (simp add: zdiv_zmult2_eq [symmetric])
  have d3: "u div 65536 div 256 = u div 16777216" by (simp add: zdiv_zmult2_eq [symmetric])
  from 1 2 3 show ?thesis unfolding d2 d3 by linarith
qed

lemma le32_roundtrip:
  fixes v :: int
  assumes "is_int32 v"
  shows "uint (word_of_int v :: u8)
         + uint (word_of_int (v mod 2 ^ 32 div 2 ^ 8) :: u8) * 2 ^ 8
         + uint (word_of_int (v mod 2 ^ 32 div 2 ^ 16) :: u8) * 2 ^ 16
         + sint (word_of_int (v mod 2 ^ 32 div 2 ^ 24) :: u8) * 2 ^ 24 = v"
proof -
  define u where "u = v mod 4294967296"
  define q where "q = u div 16777216"
  have v: "- 2147483648 \<le> v" "v \<le> 2147483647"
    using assms by (simp_all add: is_int32_def)
  have u: "0 \<le> u" "u < 4294967296"
    by (simp_all add: u_def)
  have qu: "q * 16777216 \<le> u" "u < q * 16777216 + 16777216"
    using div_bounds [of 16777216 u] by (simp_all add: q_def algebra_simps)
  have q: "0 \<le> q" "q < 256"
    using qu u by linarith+
  have b0: "uint (word_of_int v :: u8) = u mod 256"
  proof -
    have "(256::int) dvd 4294967296" by simp
    then have "v mod 4294967296 mod 256 = v mod 256"
      by (rule mod_mod_cancel)
    then show ?thesis
      by (simp only: uint_word_of_int_eq take_bit_eq_mod u_def) simp
  qed
  have b1: "uint (word_of_int (u div 256) :: u8) = u div 256 mod 256"
    by (simp only: uint_word_of_int_eq take_bit_eq_mod) simp
  have b2: "uint (word_of_int (u div 65536) :: u8) = u div 65536 mod 256"
    by (simp only: uint_word_of_int_eq take_bit_eq_mod) simp
  have s: "u mod 256 + (u div 256 mod 256) * 256 + (u div 65536 mod 256) * 65536
         + q * 16777216 = u"
    unfolding q_def by (rule bytes_sum)
  have "uint (word_of_int v :: u8)
         + uint (word_of_int (u div 256) :: u8) * 256
         + uint (word_of_int (u div 65536) :: u8) * 65536
         + sint (word_of_int q :: u8) * 16777216 = v"
  proof (cases "0 \<le> v")
    case True
    then have uv: "u = v"
      using v by (simp add: u_def)
    have "q < 128"
      using qu(1) uv v(2) by linarith
    then have "sint (word_of_int q :: u8) = q"
      using sint_byte [OF q] by simp
    then show ?thesis
      unfolding b0 b1 b2 using s uv by linarith
  next
    case False
    then have "(v + 4294967296) mod 4294967296 = v + 4294967296"
      using v by (intro mod_pos_pos_trivial) simp_all
    then have uv: "u = v + 4294967296"
      by (simp add: u_def)
    have "\<not> q < 128"
      using qu(2) uv v(1) by linarith
    then have "sint (word_of_int q :: u8) = q - 256"
      using sint_byte [OF q] by simp
    then show ?thesis
      unfolding b0 b1 b2 using s uv by linarith
  qed
  then show ?thesis
    by (simp add: u_def q_def)
qed
lemma writeInt32LE_ok:
  "is_int32 v \<Longrightarrow> offset + 4 \<le> length buf \<Longrightarrow>
   writeInt32LE buf v offset = Inr (put32 buf v offset)"
  by (simp add: writeInt32LE_def is_int32_def put32_def)

lemma length_put32: "length (put32 buf v offset) = length buf"
  by (simp add: put32_def)

lemma read_put32_same:
  assumes "is_int32 v" "offset + 4 \<le> length buf"
  shows "readInt32LE (put32 buf v offset) offset = Inr v"
  using assms(2) le32_roundtrip [OF assms(1)]
  by (simp add: readInt32LE_def put32_def)

lemma read_put32_other:
  assumes "other + 4 \<le> offset \<or> offset + 4 \<le> other"
  shows "readInt32LE (put32 buf v offset) other = readInt32LE buf other"
  using assms by (auto simp add: readInt32LE_def put32_def)

text \<open>
  Claim C5.  For a header whose six fields are 32-bit signed integers, \<open>toBuffer\<close>
  returns a buffer of 24 bytes, and \<open>fromBuffer\<close> of that buffer, on any header object,
  yields a header with the same six fields.
\<close>

theorem header_roundtrip:
  assumes "is_int32 (hdr_w hdr)" and "is_int32 (hdr_h hdr)" and "is_int32 (hdr_maxv hdr)"
    and "is_int32 (hdr_mode hdr)" and "is_int32 (hdr_t1 hdr)" and "is_int32 (hdr_t2 hdr)"
  shows "\<exists>buffer. toBuffer hdr = Inr buffer \<and> length buffer = 24 \<and>
           fromBuffer this buffer = Inr hdr"
proof -
  define b1 where "b1 = put32 (replicate 24 0) (hdr_w hdr) 0"
  define b2 where "b2 = put32 b1 (hdr_h hdr) 4"
  define b3 where "b3 = put32 b2 (hdr_maxv hdr) 8"
  define b4 where "b4 = put32 b3 (hdr_mode hdr) 12"
  define b5 where "b5 = put32 b4 (hdr_t1 hdr) 16"
  define b6 where "b6 = put32 b5 (hdr_t2 hdr) 20"
  have len: "length b1 = 24" "length b2 = 24" "length b3 = 24" "length b4 = 24"
    "length b5 = 24" "length b6 = 24"
    by (simp_all add: b1_def b2_def b3_def b4_def b5_def b6_def length_put32)
  have w1: "writeInt32LE (replicate 24 0) (hdr_w hdr) 0 = Inr b1"
    using assms(1) by (simp add: writeInt32LE_ok b1_def)
  have w2: "writeInt32LE b1 (hdr_h hdr) 4 = Inr b2"
    using assms(2) len by (simp add: writeInt32LE_ok b2_def)
  have w3: "writeInt32LE b2 (hdr_maxv hdr) 8 = Inr b3"
    using assms(3) len by (simp add: writeInt32LE_ok b3_def)
  have w4: "writeInt32LE b3 (hdr_mode hdr) 12 = Inr b4"
    using assms(4) len by (simp add: writeInt32LE_ok b4_def)
  have w5: "writeInt32LE b4 (hdr_t1 hdr) 16 = Inr b5"
    using assms(5) len by (simp add: writeInt32LE_ok b5_def)
  have w6: "writeInt32LE b5 (hdr_t2 hdr) 20 = Inr b6"
    using assms(6) len by (simp add: writeInt32LE_ok b6_def)
  have tb: "toBuffer hdr = Inr b6"
    by (simp add: toBuffer_def and_then_def w1 w2 w3 w4 w5 w6)
  have r1: "readInt32LE b6 0 = Inr (hdr_w hdr)"
    unfolding b6_def b5_def b4_def b3_def b2_def b1_def
    using assms(1) by (simp add: read_put32_other read_put32_same)
  have r2: "readInt32LE b6 4 = Inr (hdr_h hdr)"
    unfolding b6_def b5_def b4_def b3_def b2_def
    using assms(2) len(1) by (simp add: read_put32_other read_put32_same)
  have r3: "readInt32LE b6 8 = Inr (hdr_maxv hdr)"
    unfolding b6_def b5_def b4_def b3_def
    using assms(3) len(2) by (simp add: read_put32_other read_put32_same)
  have r4: "readInt32LE b6 12 = Inr (hdr_mode hdr)"
    unfolding b6_def b5_def b4_def
    using assms(4) len(3) by (simp add: read_put32_other read_put32_same)
  have r5: "readInt32LE b6 16 = Inr (hdr_t1 hdr)"
    unfolding b6_def b5_def
    using assms(5) len(4) by (simp add: read_put32_other read_put32_same)
  have r6: "readInt32LE b6 20 = Inr (hdr_t2 hdr)"
    unfolding b6_def
    using assms(6) len(5) by (simp add: read_put32_other read_put32_same)
  have "fromBuffer this b6 = Inr hdr"
    by (simp add: fromBuffer_def and_then_def r1 r2 r3 r4 r5 r6 Let_def)
  with tb len(6) show ?thesis by blast
qed

theorem header_roundtrip_witness:
  "is_int32 (- 2) \<and> is_int32 300 \<and> is_int32 255 \<and> is_int32 1 \<and>
   is_int32 (- 2147483648) \<and> is_int32 2147483647 \<and>
   toBuffer \<lparr>hdr_w = - 2, hdr_h = 300, hdr_maxv = 255, hdr_mode = 1,
              hdr_t1 = - 2147483648, hdr_t2 = 2147483647\<rparr>
     = Inr [254, 255, 255, 255,  44, 1, 0, 0,  255, 0, 0, 0,  1, 0, 0, 0,
            0, 0, 0, 128,  255, 255, 255, 127] \<and>
   fromBuffer Header_new [254, 255, 255, 255,  44, 1, 0, 0,  255, 0, 0, 0,  1, 0, 0, 0,
            0, 0, 0, 128,  255, 255, 255, 127]
     = Inr \<lparr>hdr_w = - 2, hdr_h = 300, hdr_maxv = 255, hdr_mode = 1,
              hdr_t1 = - 2147483648, hdr_t2 = 2147483647\<rparr>"
proof -
  let ?hdr = "\<lparr>hdr_w = - 2, hdr_h = 300, hdr_maxv = 255, hdr_mode = 1,
              hdr_t1 = - 2147483648, hdr_t2 = 2147483647\<rparr>"
  have pre: "is_int32 (hdr_w ?hdr)" "is_int32 (hdr_h ?hdr)" "is_int32 (hdr_maxv ?hdr)"
    "is_int32 (hdr_mode ?hdr)" "is_int32 (hdr_t1 ?hdr)" "is_int32 (hdr_t2 ?hdr)"
    by (simp_all add: is_int32_def)
  have b: "toBuffer ?hdr
     = Inr [254, 255, 255, 255,  44, 1, 0, 0,  255, 0, 0, 0,  1, 0, 0, 0,
            0, 0, 0, 128,  255, 255, 255, 127]"
    by code_simp
  from header_roundtrip [OF pre, of Header_new] b
  have "fromBuffer Header_new [254, 255, 255, 255,  44, 1, 0, 0,  255, 0, 0, 0,  1, 0, 0, 0,
            0, 0, 0, 128,  255, 255, 255, 127] = Inr ?hdr"
    by auto
  with pre b show ?thesis by simp
qed

section \<open>Properties of the receive step\<close>

lemma fromBuffer_24:
  assumes "length buffer = 24"
  shows "\<exists>hdr. fromBuffer this buffer = Inr hdr"
  using assms by (simp add: fromBuffer_def and_then_def readInt32LE_def Let_def)

lemma buffer_slice_header:
  "24 \<le> length buf \<Longrightarrow> buffer_slice buf 0 24 = take 24 buf"
  by (auto simp add: buffer_slice_def adjustOffset_def Let_def)

lemma buffer_slice_payload:
  assumes "24 \<le> length buf" "0 \<le> n"
  shows "buffer_slice buf 24 (24 + n) = take (nat n) (drop 24 buf)"
proof (cases "24 + n < int (length buf)")
  case True
  then have "adjustOffset (24 + n) (length buf) = nat (24 + n)"
    using assms(2) by (simp add: adjustOffset_def)
  moreover have "adjustOffset 24 (length buf) = 24"
    using assms(1) by (simp add: adjustOffset_def)
  moreover have "nat (24 + n) - 24 = nat n"
    using assms(2) by simp
  ultimately show ?thesis
    using assms(2) by (cases "n = 0") (simp_all add: buffer_slice_def Let_def)
next
  case False
  then have "adjustOffset (24 + n) (length buf) = length buf"
    using assms(2) by (simp add: adjustOffset_def)
  moreover have "adjustOffset 24 (length buf) = 24"
    using assms(1) by (simp add: adjustOffset_def)
  moreover have "length buf - 24 \<le> nat n"
    using False by simp
  ultimately show ?thesis
    using assms(1) by (simp add: buffer_slice_def Let_def)
qed

text \<open>
  Claim C4, as the code has it.  For a stream of at least 24 bytes the header is read from
  its first 24 bytes, and the receive step fails exactly when \<open>w * h\<close> is negative or
  the payload after the header has fewer than \<open>w * h\<close> bytes.  Otherwise it resolves
  with the image whose data are the first \<open>w * h\<close> bytes of the payload: bytes beyond
  \<open>24 + w * h\<close> are dropped, not rejected.
\<close>

theorem receiveImageData_rejects_short:
  assumes "24 \<le> length fullBuffer"
  shows "\<exists>hdr. fromBuffer Header_new (take 24 fullBuffer) = Inr hdr \<and>
     (isl (receiveImageData fullBuffer) \<longleftrightarrow>
        hdr_w hdr * hdr_h hdr < 0 \<or>
        int (length (drop 24 fullBuffer)) < hdr_w hdr * hdr_h hdr) \<and>
     (\<not> isl (receiveImageData fullBuffer) \<longrightarrow>
        receiveImageData fullBuffer =
          Inr (PGM_new (hdr_w hdr) (hdr_h hdr) (hdr_maxv hdr)
                 (take (nat (hdr_w hdr * hdr_h hdr)) (drop 24 fullBuffer))))"
proof -
  obtain hdr where hdr: "fromBuffer Header_new (take 24 fullBuffer) = Inr hdr"
    using fromBuffer_24 [of "take 24 fullBuffer" Header_new] assms by auto
  let ?n = "hdr_w hdr * hdr_h hdr"
  have r: "receiveImageData fullBuffer =
      (if int (length (buffer_slice fullBuffer 24 (24 + ?n))) \<noteq> ?n
       then Inl (ImageDataIncomplete ?n (int (length (buffer_slice fullBuffer 24 (24 + ?n)))))
       else Inr (PGM_new (hdr_w hdr) (hdr_h hdr) (hdr_maxv hdr)
              (buffer_slice fullBuffer 24 (24 + ?n))))"
    using assms by (simp add: receiveImageData_def buffer_slice_header hdr and_then_def Let_def)
  show ?thesis
  proof (cases "0 \<le> ?n")
    case True
    then have s: "buffer_slice fullBuffer 24 (24 + ?n) = take (nat ?n) (drop 24 fullBuffer)"
      using assms by (simp add: buffer_slice_payload)
    show ?thesis
      using True hdr by (auto simp add: r s)
  next
    case False
    then show ?thesis
      using hdr by (auto simp add: r)
  qed
qed

theorem receiveImageData_rejects_short_witness:
  "24 \<le> length stream0 \<and>
   fromBuffer Header_new (take 24 stream0)
     = Inr \<lparr>hdr_w = 1, hdr_h = 1, hdr_maxv = 255, hdr_mode = 0, hdr_t1 = 0, hdr_t2 = 0\<rparr> \<and>
   \<not> isl (receiveImageData stream0) \<and>
   receiveImageData stream0 = Inr (PGM_new 1 1 255 (take (nat (1 * 1)) (drop 24 stream0)))"
proof -
  have len: "24 \<le> length stream0"
    by (simp add: stream0_def)
  have h: "fromBuffer Header_new (take 24 stream0)
     = Inr \<lparr>hdr_w = 1, hdr_h = 1, hdr_maxv = 255, hdr_mode = 0, hdr_t1 = 0, hdr_t2 = 0\<rparr>"
    by (simp add: stream0_def fromBuffer_def and_then_def readInt32LE_def Header_new_def Let_def)
  have ok: "\<not> isl (receiveImageData stream0)"
    by (simp add: receiveImageData_def stream0_def buffer_slice_def adjustOffset_def
        fromBuffer_def and_then_def readInt32LE_def Header_new_def PGM_new_def Let_def)
  from receiveImageData_rejects_short [OF len] h ok
  have "receiveImageData stream0 = Inr (PGM_new 1 1 255 (take (nat (1 * 1)) (drop 24 stream0)))"
    by auto
  with len h ok show ?thesis by blast
qed

text \<open>
  Claim C4 as stated fails on \<open>stream0\<close>: its header declares a 1 by 1 image, its
  payload has 2 bytes, so 26 bytes arrive where \<open>24 + w * h\<close> is 25, and the receive
  step resolves with the image made of the first payload byte.
\<close>

theorem receiveImageData_long_payload_counterexample:
  "length stream0 = 26 \<and> length (drop 24 stream0) = 2 \<and>
   receiveImageData stream0
     = Inr \<lparr>pgm_w = 1, pgm_h = 1, pgm_maxv = 255, pgm_data = [7]\<rparr>"
  by (simp add: receiveImageData_def stream0_def buffer_slice_def adjustOffset_def
      fromBuffer_def and_then_def readInt32LE_def Header_new_def PGM_new_def Let_def)

text \<open>A payload of 3 bytes under a header that declares 2 by 2 pixels is rejected.\<close>

lemma receiveImageData_short_payload_example:
  "receiveImageData [2, 0, 0, 0,  2, 0, 0, 0,  255, 0, 0, 0,  0, 0, 0, 0,  0, 0, 0, 0,
                     0, 0, 0, 0,  5, 6, 7]
     = Inl (ImageDataIncomplete 4 3)"
  by (simp add: receiveImageData_def buffer_slice_def adjustOffset_def
      fromBuffer_def and_then_def readInt32LE_def Header_new_def PGM_new_def Let_def)

section \<open>Properties of the command line\<close>

text \<open>The facts that evaluate \<open>parseArgs\<close> on a given command line.\<close>

lemmas eval_parse = parseArgs_def main_parseArgs_def check_nthreads_def parseInt_def
  js_lt_def js_gt_def isWhiteSpace_def isRadixDigit_def digitValue_def digitsValue_def
  validateSliceParams_def MODE_NEG_def MODE_SLICE_def Let_def

text \<open>
  Claim C8, on the code.  For the command line
  \<open>/tmp/imgpipe out.pgm negativo abc\<close> the worker count is \<open>parseInt('abc')\<close>,
  which is NaN; both comparisons of the range check are false for NaN, so
  \<open>parseArgs\<close> returns the configuration with \<open>nthreads = NaN\<close> and the process
  does not exit with code 1.
\<close>

theorem parseArgs_accepts_non_numeric:
  "parseInt ''abc'' = None \<and>
   main_parseArgs [''/tmp/imgpipe'', ''out.pgm'', ''negativo'', ''abc'']
     = Returns \<lparr>fifoPath = ''/tmp/imgpipe'', outputPath = ''out.pgm'', cfg_mode = 0,
         cfg_t1 = Some 0, cfg_t2 = Some 255, nthreads = None\<rparr>"
  by (simp add: eval_parse)

text \<open>
  The rest of claim C8 holds: without the argument the worker count is 4, a worker count
  that \<open>parseArgs\<close> returns is NaN or lies in 1 to 32, and a number outside 1 to 32
  ends the process with exit code 1.
\<close>

lemma parseArgs_default_nthreads:
  "main_parseArgs [fifo, out, ''negativo'']
     = Returns \<lparr>fifoPath = fifo, outputPath = out, cfg_mode = 0,
         cfg_t1 = Some 0, cfg_t2 = Some 255, nthreads = Some 4\<rparr>"
  by (simp add: parseArgs_def main_parseArgs_def check_nthreads_def js_lt_def js_gt_def MODE_NEG_def)

lemma parseArgs_returns_range:
  assumes "main_parseArgs args = Returns c"
  shows "nthreads c = None \<or> (\<exists>n. nthreads c = Some n \<and> 1 \<le> n \<and> n \<le> 32)"
  using assms
  by (auto simp add: parseArgs_def main_parseArgs_def check_nthreads_def js_lt_def js_gt_def Let_def
      split: if_splits sum.splits option.splits proc.splits)

lemma parseArgs_rejects_number_out_of_range:
  assumes "length args \<ge> 4" "args ! 2 = ''negativo''" "parseInt (args ! 3) = Some n"
    "n < 1 \<or> n > 32"
  shows "main_parseArgs args = Exits 1"
  using assms
  by (auto simp add: parseArgs_def main_parseArgs_def check_nthreads_def js_lt_def js_gt_def Let_def)

end
